theory Spec2Isabelle
  imports Complex_Main
begin

section \<open>The Chosen One: contact registry, colour allocator and elimination timer\<close>

text \<open>
  A shallow embedding of \<^verbatim>\<open>src/App.tsx\<close>. The component state (the \<^verbatim>\<open>fingers\<close> map, the
  winner, the background, the timer ref), the browser's table of running intervals and the
  trace of sounds handed to the audio element are one record; every handler and every state
  updater of the source is a function on it. Randomness (\<^verbatim>\<open>Math.random\<close>) and the clock
  (\<^verbatim>\<open>Date.now\<close>) are inputs. JavaScript numbers are modelled by \<open>int\<close> where the source
  only holds integers (pointer ids, timestamps, floors), by \<open>real\<close> where it only stores
  them (coordinates), and by the type \<open>double\<close> of the real numbers that are IEEE 754
  binary64 values where the result depends on rounding (the draw of the elimination tick
  and its product with the number of keys).

  One step of the model is one event of the event loop: the handler runs, the updater it
  queued is applied once to the current map (React's development-only second call of an
  updater under \<^verbatim>\<open>StrictMode\<close> is not modelled), the component renders, and the effect
  that reconciles the timer runs if its dependency string changed. The pointer listeners
  are closures of the render in which the listener effect last ran: they read the map of
  that render (\<open>listenerFingers\<close>), which is the current map except between an update
  and the render that follows it.
\<close>

subsection \<open>JavaScript primitives used by the component\<close>

text \<open>Decimal rendering of an integer-valued number, as a template literal or
  \<^verbatim>\<open>Array.prototype.toString\<close> produces it.\<close>

definition digit :: "nat \<Rightarrow> char" where
  "digit d = ''0123456789'' ! d"

function show_nat :: "nat \<Rightarrow> string" where
  "show_nat n = (if n < 10 then [digit n] else show_nat (n div 10) @ [digit (n mod 10)])"
  by pat_completeness auto
termination
  by (relation "measure (\<lambda>n. n)") auto

declare show_nat.simps [simp del]

definition show_int :: "int \<Rightarrow> string" where
  "show_int i = (if i < 0 then CHR ''-'' # show_nat (nat (- i)) else show_nat (nat i))"

text \<open>\<^verbatim>\<open>Math.floor\<close> on a real number.\<close>

definition Math_floor :: "real \<Rightarrow> int" where
  "Math_floor r = \<lfloor>r\<rfloor>"

text \<open>IEEE 754 binary64 with rounding to nearest, ties to even: \<open>round_double x\<close> is the
  double nearest to the real \<open>x\<close>. The unit in the last place of a number with binary
  exponent \<open>e\<close> is \<open>2 powr (e - 52)\<close>, and \<open>2 powr (- 1074)\<close> for subnormal numbers. A
  result beyond the largest double, which is \<^verbatim>\<open>Infinity\<close> in JavaScript, stays a finite number
  here: the only rounded value of the model is floored into an array index, and either one
  lies beyond every array length, where the read yields \<^verbatim>\<open>undefined\<close>. A double is a real
  number that rounding leaves as it is.\<close>

definition round_half_even :: "real \<Rightarrow> int" where
  "round_half_even y =
     (let f = \<lfloor>y\<rfloor>
      in if y - of_int f < 1 / 2 then f
         else if 1 / 2 < y - of_int f then f + 1
         else if even f then f else f + 1)"

definition round_double :: "real \<Rightarrow> real" where
  "round_double x =
     (if x = 0 then 0
      else (let q = max (\<lfloor>log 2 \<bar>x\<bar>\<rfloor> - 52) (- 1074);
                u = 2 powr of_int q
            in sgn x * (u * of_int (round_half_even (\<bar>x\<bar> / u)))))"

typedef double = "{x :: real. round_double x = x}"
  morphisms real_of_double double_of_real
  by (rule exI [of _ 0]) (simp add: round_double_def)

text \<open>\<^verbatim>\<open>keys[i]\<close>: reading an array outside its bounds yields \<^verbatim>\<open>undefined\<close>.\<close>

definition array_at :: "'a list \<Rightarrow> int \<Rightarrow> 'a option" where
  "array_at xs i = (if 0 \<le> i \<and> i < int (length xs) then Some (xs ! nat i) else None)"

text \<open>\<^verbatim>\<open>Array.prototype.toString\<close> of an array of integers: the elements joined by commas.\<close>

fun keys_toString :: "int list \<Rightarrow> string" where
  "keys_toString [] = []"
| "keys_toString [k] = show_int k"
| "keys_toString (k # ks) = show_int k @ CHR '','' # keys_toString ks"

subsection \<open>Data model\<close>

record Finger =
  id_f :: int
  x_f :: real
  y_f :: real
  color :: string
  createdAt :: int

text \<open>A JavaScript \<^verbatim>\<open>Map\<close> from pointer id to \<^verbatim>\<open>Finger\<close>: the entries in insertion order
  (the order \<^verbatim>\<open>keys()\<close> and \<^verbatim>\<open>values()\<close> iterate in).\<close>

type_synonym FingerMap = "(int \<times> Finger) list"

definition Map_has :: "int \<Rightarrow> FingerMap \<Rightarrow> bool" where
  "Map_has k m = (k \<in> set (map fst m))"

definition Map_get :: "int \<Rightarrow> FingerMap \<Rightarrow> Finger option" where
  "Map_get k m = map_of m k"

text \<open>\<^verbatim>\<open>set\<close> overwrites the value of a present key in place and appends an absent one.\<close>

fun Map_set :: "int \<Rightarrow> Finger \<Rightarrow> FingerMap \<Rightarrow> FingerMap" where
  "Map_set k v [] = [(k, v)]"
| "Map_set k v (p # m) = (if fst p = k then (k, v) # m else p # Map_set k v m)"

text \<open>\<^verbatim>\<open>delete\<close> removes the entry of the key, if there is one.\<close>

fun Map_delete :: "int \<Rightarrow> FingerMap \<Rightarrow> FingerMap" where
  "Map_delete k [] = []"
| "Map_delete k (p # m) = (if fst p = k then m else p # Map_delete k m)"

definition Map_keys :: "FingerMap \<Rightarrow> int list" where
  "Map_keys m = map fst m"

definition Map_values :: "FingerMap \<Rightarrow> Finger list" where
  "Map_values m = map snd m"

definition Map_size :: "FingerMap \<Rightarrow> nat" where
  "Map_size m = length m"

subsection \<open>Colour allocator\<close>

text \<open>The template literal \<^verbatim>\<open>hsl(${h} ${s}% ${l}%)\<close> and the fallback literal
  \<^verbatim>\<open>hsl(${h} 75% 50%)\<close>.\<close>

definition hsl :: "int \<Rightarrow> int \<Rightarrow> int \<Rightarrow> string" where
  "hsl h s l = ''hsl('' @ show_int h @ '' '' @ show_int s @ ''% '' @ show_int l @ ''%)''"

definition hsl_fallback :: "int \<Rightarrow> string" where
  "hsl_fallback h = ''hsl('' @ show_int h @ '' 75% 50%)''"

text \<open>\<^verbatim>\<open>randomUniqueColor\<close>: \<open>rnd\<close> is the sequence of values \<^verbatim>\<open>Math.random()\<close> returns,
  \<open>n\<close> the number of calls made so far. The result is the colour and the number of
  calls made. The products of a draw with 360, 15 and 8 are taken in the real numbers:
  rounding them to doubles can change which colour a draw stands for, not the course of
  the loop.\<close>

function randomUniqueColor_loop ::
  "(nat \<Rightarrow> real) \<Rightarrow> string set \<Rightarrow> nat \<Rightarrow> nat \<Rightarrow> string \<times> nat" where
  "randomUniqueColor_loop rnd existing tries n =
     (if tries < 30 then
        (let h = Math_floor (rnd n * 360);
             s = 70 + Math_floor (rnd (n + 1) * 15);
             l = 45 + Math_floor (rnd (n + 2) * 8);
             c = hsl h s l
         in if c \<notin> existing then (c, n + 3)
            else randomUniqueColor_loop rnd existing (tries + 1) (n + 3))
      else (hsl_fallback (Math_floor (rnd n * 360)), n + 1))"
  by pat_completeness auto
termination
  by (relation "measure (\<lambda>(rnd, existing, tries, n). 30 - tries)") auto

declare randomUniqueColor_loop.simps [simp del]

definition randomUniqueColor :: "(nat \<Rightarrow> real) \<Rightarrow> string set \<Rightarrow> string \<times> nat" where
  "randomUniqueColor rnd existing = randomUniqueColor_loop rnd existing 0 0"

text \<open>The colour of the \<open>k\<close>-th attempt, from the three draws that attempt makes, and the
  colour returned when every attempt collided.\<close>

definition candidate :: "(nat \<Rightarrow> real) \<Rightarrow> nat \<Rightarrow> string" where
  "candidate rnd k =
     hsl (Math_floor (rnd (3 * k) * 360))
         (70 + Math_floor (rnd (3 * k + 1) * 15))
         (45 + Math_floor (rnd (3 * k + 2) * 8))"

definition last_resort :: "(nat \<Rightarrow> real) \<Rightarrow> string" where
  "last_resort rnd = hsl_fallback (Math_floor (rnd 90 * 360))"

subsection \<open>Component state, sounds and the browser's timers\<close>

datatype sound = Snd_add | Snd_remove | Snd_win

text \<open>The state hooks and the ref of \<^verbatim>\<open>FingerPickerGame\<close>, together with what the
  component acts on outside itself: \<open>listenerFingers\<close> is the map the registered pointer
  listeners closed over (the value of \<^verbatim>\<open>fingers\<close> in the render whose listener effect ran
  last), \<open>intervals\<close> are the handles of the intervals the browser is running,
  \<open>nextHandle\<close> the handle the next \<^verbatim>\<open>setInterval\<close> returns, and \<open>played\<close> the sounds
  started so far, oldest first.\<close>

record game =
  fingers :: FingerMap
  listenerFingers :: FingerMap
  winnerId :: "int option"
  bgColor :: string
  eliminationTimerRef :: "nat option"
  intervals :: "nat list"
  nextHandle :: nat
  played :: "sound list"

text \<open>What a handler reads from outside: the values \<^verbatim>\<open>Math.random()\<close> returns while it
  runs, in order (doubles), and the value of \<^verbatim>\<open>Date.now()\<close>. \<open>Math_random e n\<close> is the
  value of the \<open>n\<close>-th call as a real number.\<close>

record env =
  random_draws :: "nat \<Rightarrow> double"
  Date_now :: int

definition Math_random :: "env \<Rightarrow> nat \<Rightarrow> real" where
  "Math_random e n = real_of_double (random_draws e n)"

definition DEFAULT_BG :: string where
  "DEFAULT_BG = ''#0A0A0A''"

definition playSound :: "sound \<Rightarrow> game \<Rightarrow> game" where
  "playSound t s = s\<lparr>played := played s @ [t]\<rparr>"

subsection \<open>Registry updaters\<close>

text \<open>The function \<^verbatim>\<open>upsertFinger\<close> passes to \<^verbatim>\<open>setFingers\<close>: the next map and the sounds it
  starts. The branch \<open>None\<close> stands for the non-null assertion \<^verbatim>\<open>next.get(id)!\<close>; it is
  never taken, since the key is present.\<close>

definition upsertFinger_updater ::
  "env \<Rightarrow> int \<Rightarrow> real \<Rightarrow> real \<Rightarrow> FingerMap \<Rightarrow> FingerMap \<times> sound list" where
  "upsertFinger_updater e i clientX clientY prev =
     (let next = prev;
          existing = set (map color (Map_values next))
      in if Map_has i next then
           (case Map_get i next of
              Some f \<Rightarrow> (Map_set i (f\<lparr>x_f := clientX, y_f := clientY\<rparr>) next, [])
            | None \<Rightarrow> (next, []))
         else
           (let c = fst (randomUniqueColor (Math_random e) existing)
            in (Map_set i \<lparr>id_f = i, x_f = clientX, y_f = clientY, color = c,
                          createdAt = Date_now e\<rparr> next,
                [Snd_add])))"

definition removeFinger_updater :: "int \<Rightarrow> FingerMap \<Rightarrow> FingerMap \<times> sound list" where
  "removeFinger_updater i prev =
     (if \<not> Map_has i prev then (prev, [])
      else (let next = Map_delete i prev
            in (next, if Map_size next > 0 then [Snd_remove] else [])))"

definition setFingers :: "(FingerMap \<Rightarrow> FingerMap \<times> sound list) \<Rightarrow> game \<Rightarrow> game" where
  "setFingers updater s =
     (case updater (fingers s) of
        (next, sounds) \<Rightarrow> s\<lparr>fingers := next, played := played s @ sounds\<rparr>)"

definition upsertFinger :: "env \<Rightarrow> int \<Rightarrow> real \<Rightarrow> real \<Rightarrow> game \<Rightarrow> game" where
  "upsertFinger e i clientX clientY s = setFingers (upsertFinger_updater e i clientX clientY) s"

definition removeFinger :: "int \<Rightarrow> game \<Rightarrow> game" where
  "removeFinger i s = setFingers (removeFinger_updater i) s"

subsection \<open>Elimination timer\<close>

definition clearInterval :: "nat \<Rightarrow> game \<Rightarrow> game" where
  "clearInterval h s = s\<lparr>intervals := removeAll h (intervals s)\<rparr>"

definition setInterval :: "game \<Rightarrow> nat \<times> game" where
  "setInterval s =
     (nextHandle s, s\<lparr>intervals := intervals s @ [nextHandle s], nextHandle := nextHandle s + 1\<rparr>)"

text \<open>The block \<^verbatim>\<open>if (ref.current) { clearInterval(ref.current); ref.current = null }\<close>,
  which the source has three times. A handle is truthy when it is not null and not 0.\<close>

definition clearEliminationTimer :: "game \<Rightarrow> game" where
  "clearEliminationTimer s =
     (case eliminationTimerRef s of
        None \<Rightarrow> s
      | Some h \<Rightarrow> if h \<noteq> 0 then (clearInterval h s)\<lparr>eliminationTimerRef := None\<rparr> else s)"

text \<open>The callback given to \<^verbatim>\<open>setInterval\<close>: one elimination tick. The product
  \<^verbatim>\<open>Math.random() * keys.length\<close> is a product of doubles, rounded to a double before
  \<^verbatim>\<open>Math.floor\<close>. \<open>loserId\<close> is \<open>None\<close> when the index is outside the array
  (\<^verbatim>\<open>undefined\<close>, which \<^verbatim>\<open>delete\<close> ignores).\<close>

definition eliminationTick :: "env \<Rightarrow> game \<Rightarrow> game" where
  "eliminationTick e s =
     (let prev = fingers s
      in if Map_size prev \<le> 1 then clearEliminationTimer s
         else
           (let keys = Map_keys prev;
                loserId = array_at keys
                  (Math_floor (round_double (Math_random e 0 * real (length keys))));
                next = (case loserId of None \<Rightarrow> prev | Some k \<Rightarrow> Map_delete k prev);
                s1 = (if Map_size next > 0 then playSound Snd_remove s else s);
                s2 = (if Map_size next = 1 then
                        (case Map_keys next of
                           [] \<Rightarrow> s1\<lparr>winnerId := None\<rparr>
                         | finalId # _ \<Rightarrow>
                             (case Map_get finalId next of
                                None \<Rightarrow> s1\<lparr>winnerId := Some finalId\<rparr>
                              | Some f \<Rightarrow> playSound Snd_win (s1\<lparr>winnerId := Some finalId\<rparr>)))
                      else s1)
            in s2\<lparr>fingers := next\<rparr>))"

definition resetEliminationTimer :: "game \<Rightarrow> game" where
  "resetEliminationTimer s =
     (let s1 = clearEliminationTimer s
      in if Map_size (fingers s1) \<le> 1 then s1
         else (case setInterval s1 of (h, s2) \<Rightarrow> s2\<lparr>eliminationTimerRef := Some h\<rparr>))"

text \<open>The effect with the dependency \<^verbatim>\<open>Array.from(fingers.keys()).toString()\<close>: its body,
  and the commit of a render, which runs the body when the dependency differs from the one
  of the render before. The listener effect has the dependency \<^verbatim>\<open>fingers\<close>: after the
  commit the registered listeners are those of this render and read its map.\<close>

definition reconcile :: "game \<Rightarrow> game" where
  "reconcile s =
     (if Map_size (fingers s) > 1 then resetEliminationTimer s
      else (let s1 = clearEliminationTimer s
            in if Map_size (fingers s1) = 0 then s1\<lparr>winnerId := None, bgColor := DEFAULT_BG\<rparr>
               else s1))"

definition commit :: "game \<Rightarrow> game \<Rightarrow> game" where
  "commit before after =
     (let s1 = (if keys_toString (Map_keys (fingers after))
                    \<noteq> keys_toString (Map_keys (fingers before))
                then reconcile after else after)
      in s1\<lparr>listenerFingers := fingers s1\<rparr>)"

subsection \<open>Pointer events\<close>

record PointerEvent =
  pointerId :: int
  clientX :: real
  clientY :: real
  pointerType :: string
  button :: int
  isPrimary :: bool

definition onPointerDown :: "env \<Rightarrow> PointerEvent \<Rightarrow> game \<Rightarrow> game" where
  "onPointerDown e pe s =
     (if pointerType pe = ''mouse'' \<and> button pe \<noteq> 0 then s
      else upsertFinger e (pointerId pe) (clientX pe) (clientY pe) s)"

definition onPointerMove :: "env \<Rightarrow> PointerEvent \<Rightarrow> game \<Rightarrow> game" where
  "onPointerMove e pe s =
     (if \<not> isPrimary pe \<and> pointerType pe = ''mouse'' then s
      else if Map_has (pointerId pe) (listenerFingers s)
           then upsertFinger e (pointerId pe) (clientX pe) (clientY pe) s
           else s)"

definition onPointerUp :: "PointerEvent \<Rightarrow> game \<Rightarrow> game" where
  "onPointerUp pe s = removeFinger (pointerId pe) s"

text \<open>\<^verbatim>\<open>onPointerMove\<close> tests the map of its closure; the updater that \<^verbatim>\<open>upsertFinger\<close>
  queues tests the current one.

  What the event loop delivers: the four pointer events the component listens to
  (\<^verbatim>\<open>pointercancel\<close> shares the handler of \<^verbatim>\<open>pointerup\<close>) and the firing of an interval.
  A step runs the handler, then the commit of the render that follows.\<close>

datatype event =
  PointerDown PointerEvent
| PointerMove PointerEvent
| PointerUp PointerEvent
| PointerCancel PointerEvent
| IntervalTick nat

fun handle :: "env \<Rightarrow> event \<Rightarrow> game \<Rightarrow> game" where
  "handle e (PointerDown pe) s = onPointerDown e pe s"
| "handle e (PointerMove pe) s = onPointerMove e pe s"
| "handle e (PointerUp pe) s = onPointerUp pe s"
| "handle e (PointerCancel pe) s = onPointerUp pe s"
| "handle e (IntervalTick h) s = (if h \<in> set (intervals s) then eliminationTick e s else s)"

definition step :: "env \<Rightarrow> event \<Rightarrow> game \<Rightarrow> game" where
  "step e ev s = commit s (handle e ev s)"

text \<open>The state after mounting: the initial values of the hooks; the effect's first run
  finds the map empty and changes nothing.\<close>

definition initial :: game where
  "initial = \<lparr>fingers = [], listenerFingers = [], winnerId = None, bgColor = DEFAULT_BG,
     eliminationTimerRef = None, intervals = [], nextHandle = 1, played = []\<rparr>"

inductive reachable :: "game \<Rightarrow> bool" where
  reachable_initial: "reachable initial"
| reachable_step: "reachable s \<Longrightarrow> reachable (step e ev s)"

subsection \<open>Timer predicates\<close>

text \<open>The timer is running when the browser holds an interval. The ref tracks the timer
  when it is null and no interval runs, or holds the handle of the only running interval;
  handles are positive, as \<^verbatim>\<open>setInterval\<close> returns them.\<close>

definition timer_running :: "game \<Rightarrow> bool" where
  "timer_running s = (intervals s \<noteq> [])"

definition timer_tracked :: "game \<Rightarrow> bool" where
  "timer_tracked s =
     (0 < nextHandle s \<and>
      (case eliminationTimerRef s of
         None \<Rightarrow> intervals s = []
       | Some h \<Rightarrow> 0 < h \<and> h < nextHandle s \<and> intervals s = [h]))"

subsection \<open>Replaying registry operations\<close>

text \<open>Sequences of registry operations, for replaying them from the empty registry, and
  the two counts the specification compares the size with: the upserts of an id that is
  absent when they run, and the removes of an id that is present when they run.\<close>

datatype registry_op = Upsert env int real real | Remove int

fun apply_op :: "registry_op \<Rightarrow> FingerMap \<Rightarrow> FingerMap" where
  "apply_op (Upsert e i cx cy) m = fst (upsertFinger_updater e i cx cy m)"
| "apply_op (Remove i) m = fst (removeFinger_updater i m)"

fun replay :: "registry_op list \<Rightarrow> FingerMap \<Rightarrow> FingerMap" where
  "replay [] m = m"
| "replay (opn # ops) m = replay ops (apply_op opn m)"

fun is_fresh_add :: "registry_op \<Rightarrow> FingerMap \<Rightarrow> bool" where
  "is_fresh_add (Upsert e i cx cy) m = (\<not> Map_has i m)"
| "is_fresh_add (Remove i) m = False"

fun is_present_remove :: "registry_op \<Rightarrow> FingerMap \<Rightarrow> bool" where
  "is_present_remove (Upsert e i cx cy) m = False"
| "is_present_remove (Remove i) m = Map_has i m"

fun fresh_adds :: "registry_op list \<Rightarrow> FingerMap \<Rightarrow> nat" where
  "fresh_adds [] m = 0"
| "fresh_adds (opn # ops) m =
     (if is_fresh_add opn m then 1 else 0) + fresh_adds ops (apply_op opn m)"

fun present_removes :: "registry_op list \<Rightarrow> FingerMap \<Rightarrow> nat" where
  "present_removes [] m = 0"
| "present_removes (opn # ops) m =
     (if is_present_remove opn m then 1 else 0) + present_removes ops (apply_op opn m)"

subsection \<open>Sample inputs\<close>

text \<open>An environment whose random source always returns 0, two touches, and the runs
  that put one and two fingers down and let the interval fire once.\<close>

definition always_zero :: "nat \<Rightarrow> real" where
  "always_zero n = 0"

definition zero_draw :: "nat \<Rightarrow> double" where
  "zero_draw n = double_of_real 0"

definition env_zero :: env where
  "env_zero = \<lparr>random_draws = zero_draw, Date_now = 1000\<rparr>"

definition touch_A :: PointerEvent where
  "touch_A = \<lparr>pointerId = 1, clientX = 10, clientY = 20, pointerType = ''touch'',
     button = 0, isPrimary = True\<rparr>"

definition touch_B :: PointerEvent where
  "touch_B = \<lparr>pointerId = 2, clientX = 30, clientY = 40, pointerType = ''touch'',
     button = 0, isPrimary = False\<rparr>"

definition finger_A :: Finger where
  "finger_A = \<lparr>id_f = 1, x_f = 10, y_f = 20, color = ''hsl(0 70% 45%)'', createdAt = 1000\<rparr>"

definition finger_B :: Finger where
  "finger_B = \<lparr>id_f = 2, x_f = 30, y_f = 40, color = ''hsl(0 75% 50%)'', createdAt = 1000\<rparr>"

definition game_A :: game where
  "game_A = step env_zero (PointerDown touch_A) initial"

definition game_AB :: game where
  "game_AB = step env_zero (PointerDown touch_B) game_A"

definition game_AB_tick :: game where
  "game_AB_tick = step env_zero (IntervalTick 1) game_AB"

text \<open>Two fingers down, a second down event for the first, the first lifted, and the
  release of a pointer that was never down.\<close>

definition sample_ops :: "registry_op list" where
  "sample_ops = [Upsert env_zero 1 10 20, Upsert env_zero 2 30 40, Upsert env_zero 1 55 66,
     Remove 1, Remove 7]"

text \<open>One finger with an interval still running: a state no run reaches, for the
  defensive branch of the tick.\<close>

definition game_A_running :: game where
  "game_A_running = \<lparr>fingers = [(1, finger_A)], listenerFingers = [(1, finger_A)],
     winnerId = None, bgColor = DEFAULT_BG,
     eliminationTimerRef = Some 1, intervals = [1], nextHandle = 2, played = [Snd_add]\<rparr>"

text \<open>A move of the first touch.\<close>

definition touch_A_moved :: PointerEvent where
  "touch_A_moved = \<lparr>pointerId = 1, clientX = 55, clientY = 66, pointerType = ''touch'',
     button = 0, isPrimary = True\<rparr>"

text \<open>From two fingers down: the first finger lifted by hand; and, after the tick, the
  winner lifting the finger.\<close>

definition game_AB_lifted :: game where
  "game_AB_lifted = step env_zero (PointerUp touch_A) game_AB"

definition game_over :: game where
  "game_over = step env_zero (PointerUp touch_B) game_AB_tick"

text \<open>An environment whose random source always returns 0.75, and one whose source
  always returns the double nearest to one third, \<^verbatim>\<open>0.3333333333333333\<close>, whose product
  with 3 rounds to 1 in doubles. Three fingers down, the timer running.\<close>

definition high_draw :: "nat \<Rightarrow> double" where
  "high_draw n = double_of_real (3 / 4)"

definition env_high :: env where
  "env_high = \<lparr>random_draws = high_draw, Date_now = 2000\<rparr>"

definition third_draw :: "nat \<Rightarrow> double" where
  "third_draw n = double_of_real (6004799503160661 / 2 ^ 54)"

definition env_third :: env where
  "env_third = \<lparr>random_draws = third_draw, Date_now = 3000\<rparr>"

definition finger_C :: Finger where
  "finger_C = \<lparr>id_f = 3, x_f = 50, y_f = 60, color = ''hsl(120 80% 50%)'', createdAt = 1500\<rparr>"

definition game_ABC :: game where
  "game_ABC = \<lparr>fingers = [(1, finger_A), (2, finger_B), (3, finger_C)],
     listenerFingers = [(1, finger_A), (2, finger_B), (3, finger_C)],
     winnerId = None, bgColor = DEFAULT_BG,
     eliminationTimerRef = Some 2, intervals = [2], nextHandle = 3,
     played = [Snd_add, Snd_add, Snd_add]\<rparr>"

text \<open>From two fingers down: the interval fires and eliminates the first finger, and
  before the component renders again a move of that finger arrives; then the render.\<close>

definition game_AB_tick_pending :: game where
  "game_AB_tick_pending = handle env_zero (IntervalTick 1) game_AB"

definition game_AB_revived :: game where
  "game_AB_revived =
     commit game_AB (handle env_zero (PointerMove touch_A_moved) game_AB_tick_pending)"

definition finger_A_again :: Finger where
  "finger_A_again =
     \<lparr>id_f = 1, x_f = 55, y_f = 66, color = ''hsl(0 70% 45%)'', createdAt = 1000\<rparr>"

section \<open>Properties\<close>

subsection \<open>Rounding to doubles\<close>

lemma round_half_even_int: "round_half_even (of_int k) = k"
  by (simp add: round_half_even_def)

lemma round_half_even_nonneg: "0 \<le> y \<Longrightarrow> 0 \<le> round_half_even y"
  by (auto simp: round_half_even_def Let_def)

lemma round_half_even_below:
  assumes "y < of_int N - 1 / 2"
  shows "round_half_even y \<le> N - 1"
proof -
  have "y < of_int N" using assms by simp
  then have f: "\<lfloor>y\<rfloor> \<le> N - 1" by (simp add: floor_less_iff)
  show ?thesis
  proof (cases "\<lfloor>y\<rfloor> = N - 1")
    case True
    then have "y - of_int \<lfloor>y\<rfloor> < 1 / 2" using assms by simp
    then show ?thesis using True by (simp add: round_half_even_def)
  next
    case False
    with f have "\<lfloor>y\<rfloor> + 1 \<le> N - 1" by simp
    then show ?thesis by (auto simp: round_half_even_def Let_def)
  qed
qed

lemma round_double_pos:
  assumes "0 < x"
  shows "round_double x =
     2 powr of_int (max (\<lfloor>log 2 x\<rfloor> - 52) (- 1074))
       * of_int (round_half_even (x / 2 powr of_int (max (\<lfloor>log 2 x\<rfloor> - 52) (- 1074))))"
  using assms by (simp add: round_double_def Let_def)

lemma round_double_exact:
  assumes "0 < x" and "2 powr of_int e \<le> x" and "x < 2 powr of_int (e + 1)"
    and "- 1022 \<le> e" and "x / 2 powr of_int (e - 52) = of_int k"
  shows "round_double x = x"
proof -
  have e: "\<lfloor>log 2 x\<rfloor> = e"
    using assms(1-3) by (simp add: floor_log_eq_powr_iff)
  have q: "max (e - 52) (- 1074) = e - 52" using assms(4) by simp
  have "round_double x = 2 powr of_int (e - 52) * of_int k"
    unfolding round_double_pos [OF assms(1)] e q assms(5) round_half_even_int ..
  also have "\<dots> = x" using assms(5) by (simp add: field_simps)
  finally show ?thesis .
qed

lemma powr_minus_53: "(2::real) powr (- 53) = 1 / 2 ^ 53"
  by (simp add: powr_neg_numeral)

lemma double_below_one:
  assumes d: "round_double r = r" and "0 \<le> r" and "r < 1"
  shows "r \<le> 1 - 1 / 2 ^ 53"
proof (cases "r < 1 / 2")
  case True
  then show ?thesis by simp
next
  case False
  then have pos: "0 < r" by simp
  have "2 powr of_int (- 1) \<le> r" "r < 2 powr of_int (- 1 + 1)"
    using False assms(3) by (simp_all add: powr_minus_divide)
  then have e: "\<lfloor>log 2 r\<rfloor> = - 1"
    using pos by (simp add: floor_log_eq_powr_iff)
  define j where "j = round_half_even (r / 2 powr of_int (- 53))"
  have r: "r = of_int j / 2 ^ 53"
    using d unfolding round_double_pos [OF pos] e j_def by (simp add: powr_minus_53)
  then have "of_int j = r * 2 ^ 53" by simp
  also have "\<dots> < 1 * 2 ^ 53" using assms(3) by (intro mult_strict_right_mono) simp_all
  finally have "of_int j < (2::real) ^ 53" by simp
  then have "j < 2 ^ 53" by (metis of_int_less_iff of_int_numeral of_int_power)
  then have "j \<le> 2 ^ 53 - 1" by simp
  then have "(of_int j :: real) \<le> of_int (2 ^ 53 - 1)" by (simp only: of_int_le_iff)
  then have "(of_int j :: real) \<le> 2 ^ 53 - 1" by simp
  then have "r \<le> (2 ^ 53 - 1) / 2 ^ 53"
    unfolding r by (intro divide_right_mono) simp_all
  also have "\<dots> = 1 - 1 / 2 ^ 53" by (simp add: field_simps)
  finally show ?thesis .
qed

lemma round_double_product:
  fixes n :: nat
  assumes d: "round_double r = r" and r0: "0 \<le> r" and r1: "r < 1"
    and n0: "0 < n" and n53: "n < 2 ^ 53"
  shows "0 \<le> round_double (r * real n) \<and> round_double (r * real n) < real n"
proof (cases "r = 0")
  case True
  then show ?thesis using n0 by (simp add: round_double_def)
next
  case False
  define x where "x = r * real n"
  have x0: "0 < x" using False r0 n0 by (simp add: x_def)
  have xn: "x < real n" using r1 n0 by (simp add: x_def)
  define e where "e = \<lfloor>log 2 x\<rfloor>"
  have ex: "2 powr of_int e \<le> x" "x < 2 powr of_int (e + 1)"
    using floor_log_eq_powr_iff [of x 2 e] x0 by (simp_all add: e_def)
  have "2 powr of_int e < real n" using ex(1) xn by simp
  also have "real n < 2 powr of_int 53" using n53
    by (metis of_nat_less_iff of_nat_numeral of_nat_power of_int_numeral powr_numeral
        zero_le_numeral)
  finally have "(2::real) powr of_int e < 2 powr of_int 53" .
  then have "real_of_int e < real_of_int 53"
    by (subst (asm) powr_less_cancel_iff) simp_all
  then have e52: "e \<le> 52" by simp
  define q where "q = max (e - 52) (- 1074)"
  define u :: real where "u = 2 powr of_int q"
  have q0: "q \<le> 0" using e52 by (simp add: q_def)
  have u0: "0 < u" by (simp add: u_def)
  have inv_u: "1 / u = 2 ^ nat (- q)"
    using q0 by (simp add: u_def powr_real_of_int field_simps)
  define N :: int where "N = int n * 2 ^ nat (- q)"
  have N: "of_int N = real n / u"
  proof -
    have "real n / u = real n * (1 / u)" by simp
    also have "\<dots> = of_int N" unfolding inv_u by (simp add: N_def)
    finally show ?thesis by simp
  qed
  have below: "2 powr of_int (q + 52) < real n"
  proof (cases "e - 52 \<le> - 1074")
    case True
    then have qq: "q + 52 = - 1022" by (simp add: q_def)
    have "(2::real) powr of_int (- 1022) < 2 powr of_int 0"
      by (subst powr_less_cancel_iff) simp_all
    also have "\<dots> \<le> real n" using n0 by simp
    finally show ?thesis unfolding qq .
  next
    case False
    then have "q + 52 = e" by (simp add: q_def)
    then show ?thesis using \<open>2 powr of_int e < real n\<close> by simp
  qed
  have half: "1 / 2 < (of_int N :: real) / 2 ^ 53"
  proof -
    have "(2::real) powr of_int (q + 52) = 2 powr of_int q * 2 powr 52"
      by (simp add: powr_add)
    then have "2 powr of_int (q + 52) / u = 2 ^ 52"
      using u0 by (simp add: u_def)
    moreover have "2 powr of_int (q + 52) / u < real n / u"
      using below u0 by (simp add: divide_strict_right_mono)
    ultimately have "(2::real) ^ 52 < of_int N" by (simp add: N)
    then show ?thesis by simp
  qed
  have "x / u = r * (of_int N :: real)" by (simp add: x_def N)
  also have "\<dots> \<le> (1 - 1 / 2 ^ 53) * of_int N"
    using double_below_one [OF d r0 r1] N u0 n0
    by (intro mult_right_mono) simp_all
  also have "\<dots> = of_int N - of_int N / 2 ^ 53" by (simp add: field_simps)
  also have "\<dots> < of_int N - 1 / 2" using half by simp
  finally have "round_half_even (x / u) \<le> N - 1" by (rule round_half_even_below)
  then have "(of_int (round_half_even (x / u)) :: real) \<le> of_int (N - 1)"
    by (simp only: of_int_le_iff)
  then have "u * of_int (round_half_even (x / u)) \<le> u * of_int (N - 1)"
    using u0 by (intro mult_left_mono) simp_all
  also have "\<dots> = real n - u" using u0 by (simp add: N field_simps)
  also have "\<dots> < real n" using u0 by simp
  finally have hi: "round_double x < real n"
    unfolding round_double_pos [OF x0] e_def [symmetric] q_def [symmetric] u_def [symmetric] .
  have "0 \<le> x / u" using x0 u0 by simp
  then have "0 \<le> round_half_even (x / u)" by (rule round_half_even_nonneg)
  then have "0 \<le> u * of_int (round_half_even (x / u))" using u0 by simp
  then have lo: "0 \<le> round_double x"
    unfolding round_double_pos [OF x0] e_def [symmetric] q_def [symmetric] u_def [symmetric] .
  from lo hi show ?thesis by (simp add: x_def)
qed

lemma round_double_normal:
  assumes "0 < x" and "2 powr of_int e \<le> x" and "x < 2 powr of_int (e + 1)"
    and "- 1022 \<le> e"
  shows "round_double x =
     2 powr of_int (e - 52) * of_int (round_half_even (x / 2 powr of_int (e - 52)))"
proof -
  have e: "\<lfloor>log 2 x\<rfloor> = e"
    using assms(1-3) by (simp add: floor_log_eq_powr_iff)
  have q: "max (e - 52) (- 1074) = e - 52" using assms(4) by simp
  show ?thesis unfolding round_double_pos [OF assms(1)] e q ..
qed

lemma round_double_three_quarters: "round_double (3 / 4) = 3 / 4"
  using round_double_exact [of "3 / 4" "- 1" "3 * 2 ^ 51"]
  by (simp add: powr_neg_numeral powr_minus_divide)

lemma round_double_third: "round_double (6004799503160661 / 2 ^ 54) = 6004799503160661 / 2 ^ 54"
  using round_double_exact [of "6004799503160661 / 2 ^ 54" "- 2" "6004799503160661"]
  by (simp add: powr_neg_numeral powr_minus_divide)

lemma round_double_third_times_three: "round_double (6004799503160661 / 2 ^ 54 * real (3::nat)) = 1"
  using round_double_normal [of "6004799503160661 / 2 ^ 54 * 3" "- 1"]
  by (simp add: powr_neg_numeral powr_minus_divide round_half_even_def)

lemma round_double_three_halves: "round_double (3 / 2) = 3 / 2"
  using round_double_exact [of "3 / 2" 0 "3 * 2 ^ 51"]
  by (simp add: powr_neg_numeral powr_minus_divide)

lemma real_of_double_rounded: "round_double (real_of_double d) = real_of_double d"
  using real_of_double [of d] by simp

lemma Math_random_env_zero: "Math_random env_zero n = 0"
  by (simp add: Math_random_def env_zero_def zero_draw_def double_of_real_inverse
      round_double_def)

lemma Math_random_env_zero_fun: "Math_random env_zero = always_zero"
  by (rule ext) (simp add: Math_random_env_zero always_zero_def)

lemma Date_now_env_zero: "Date_now env_zero = 1000"
  by (simp add: env_zero_def)

lemma Math_random_env_high: "Math_random env_high n = 3 / 4"
  by (simp add: Math_random_def env_high_def high_draw_def double_of_real_inverse
      round_double_three_quarters)

lemma Math_random_env_third: "Math_random env_third n = 6004799503160661 / 2 ^ 54"
proof -
  have "real_of_double (double_of_real (6004799503160661 / 2 ^ 54))
      = 6004799503160661 / 2 ^ 54"
    by (rule double_of_real_inverse) (simp only: mem_Collect_eq round_double_third)
  then show ?thesis
    by (simp only: Math_random_def env_third_def third_draw_def env.simps)
qed

subsection \<open>Colour allocator\<close>

lemma randomUniqueColor_loop_spec:
  "tries \<le> 30 \<Longrightarrow> (\<forall>j<tries. candidate rnd j \<in> existing) \<Longrightarrow>
   (\<exists>k<30. candidate rnd k \<notin> existing \<and> (\<forall>j<k. candidate rnd j \<in> existing) \<and>
      randomUniqueColor_loop rnd existing tries (3 * tries) = (candidate rnd k, 3 * (k + 1)))
   \<or> ((\<forall>k<30. candidate rnd k \<in> existing) \<and>
      randomUniqueColor_loop rnd existing tries (3 * tries) = (last_resort rnd, 91))"
proof (induction d \<equiv> "30 - tries" arbitrary: tries)
  case 0
  then have t: "tries = 30" by simp
  show ?case using "0.prems"(2)
    unfolding t by (simp add: randomUniqueColor_loop.simps [of _ _ 30] last_resort_def)
next
  case (Suc d)
  then have lt: "tries < 30" by simp
  have c: "hsl (Math_floor (rnd (3 * tries) * 360))
      (70 + Math_floor (rnd (3 * tries + 1) * 15))
      (45 + Math_floor (rnd (3 * tries + 2) * 8)) = candidate rnd tries"
    by (simp add: candidate_def)
  show ?case
  proof (cases "candidate rnd tries \<in> existing")
    case False
    have "randomUniqueColor_loop rnd existing tries (3 * tries) =
        (candidate rnd tries, 3 * (tries + 1))"
      using lt False c by (subst randomUniqueColor_loop.simps) (simp add: Let_def)
    with lt False Suc.prems(2) show ?thesis by blast
  next
    case True
    have all: "\<forall>j<Suc tries. candidate rnd j \<in> existing"
      using Suc.prems(2) True by (auto simp: less_Suc_eq)
    have step: "randomUniqueColor_loop rnd existing tries (3 * tries) =
        randomUniqueColor_loop rnd existing (Suc tries) (3 * Suc tries)"
      using lt True c by (subst randomUniqueColor_loop.simps) (simp add: Let_def add.commute)
    have "d = 30 - Suc tries" using Suc.hyps(2) by simp
    moreover have "Suc tries \<le> 30" using lt by simp
    ultimately show ?thesis
      unfolding step using all by (rule Suc.hyps(1))
  qed
qed









lemma candidate_always_zero: "candidate always_zero k = ''hsl(0 70% 45%)''"
  by (simp add: candidate_def always_zero_def hsl_def Math_floor_def show_int_def
      show_nat.simps digit_def)

lemma last_resort_always_zero: "last_resort always_zero = ''hsl(0 75% 50%)''"
  by (simp add: last_resort_def always_zero_def hsl_fallback_def Math_floor_def show_int_def
      show_nat.simps digit_def)


subsection \<open>Map operations\<close>

lemma Map_set_absent: "\<not> Map_has k m \<Longrightarrow> Map_set k v m = m @ [(k, v)]"
  by (induction m) (auto simp: Map_has_def)

lemma Map_keys_set_present: "Map_has k m \<Longrightarrow> Map_keys (Map_set k v m) = Map_keys m"
  by (induction m) (auto simp: Map_has_def Map_keys_def)

lemma Map_get_set: "Map_get k' (Map_set k v m) = (if k' = k then Some v else Map_get k' m)"
  by (induction m) (auto simp: Map_get_def)

lemma Map_has_get: "Map_has k m \<Longrightarrow> \<exists>f. Map_get k m = Some f"
  by (induction m) (auto simp: Map_has_def Map_get_def)

lemma Map_delete_absent: "\<not> Map_has k m \<Longrightarrow> Map_delete k m = m"
  by (induction m) (auto simp: Map_has_def)

lemma Map_size_delete: "Map_has k m \<Longrightarrow> Suc (Map_size (Map_delete k m)) = Map_size m"
  by (induction m) (auto simp: Map_has_def Map_size_def)

lemma Map_keys_delete_subset: "set (Map_keys (Map_delete k m)) \<subseteq> set (Map_keys m)"
  by (induction m) (auto simp: Map_keys_def)

lemma distinct_Map_delete: "distinct (Map_keys m) \<Longrightarrow> distinct (Map_keys (Map_delete k m))"
proof (induction m)
  case Nil
  then show ?case by (simp add: Map_keys_def)
next
  case (Cons p m)
  have "fst p \<notin> set (Map_keys (Map_delete k m))"
    using Cons.prems Map_keys_delete_subset [of k m] by (auto simp: Map_keys_def)
  with Cons show ?case by (simp add: Map_keys_def)
qed

lemma Map_has_delete: "distinct (Map_keys m) \<Longrightarrow> \<not> Map_has k (Map_delete k m)"
  by (induction m) (auto simp: Map_has_def Map_keys_def)

lemma Map_get_delete_other: "k' \<noteq> k \<Longrightarrow> Map_get k' (Map_delete k m) = Map_get k' m"
  by (induction m) (auto simp: Map_get_def)

lemma distinct_Map_set: "distinct (Map_keys m) \<Longrightarrow> distinct (Map_keys (Map_set k v m))"
proof (cases "Map_has k m")
  case True
  assume "distinct (Map_keys m)"
  with True show ?thesis by (simp add: Map_keys_set_present)
next
  case False
  assume "distinct (Map_keys m)"
  with False show ?thesis by (simp add: Map_set_absent) (simp add: Map_keys_def Map_has_def)
qed

subsection \<open>Registry operations\<close>

lemma upsertFinger_updater_sizes:
  "Map_size (fst (upsertFinger_updater e i cx cy m))
     = Map_size m + (if Map_has i m then 0 else 1)"
proof (cases "Map_has i m")
  case False
  then show ?thesis
    by (simp add: upsertFinger_updater_def Let_def Map_set_absent Map_size_def)
next
  case True
  then obtain f where f: "Map_get i m = Some f"
    using Map_has_get by blast
  have "length (Map_keys (Map_set i (f\<lparr>x_f := cx, y_f := cy\<rparr>) m)) = length (Map_keys m)"
    using Map_keys_set_present [OF True] by simp
  then show ?thesis
    using True f by (simp add: upsertFinger_updater_def Let_def Map_size_def Map_keys_def)
qed

text \<open>
  C5. Upsert of an absent id appends one contact with that id, the given position, the
  colour the allocator returns for the colours in use, and starts the sound \<open>add\<close>.
  Upsert of a present id leaves the keys (and so the number of entries) as they are,
  replaces the contact by itself with the new position (id, colour and creation time
  kept), leaves every other contact alone and starts no sound.
\<close>

theorem upsertFinger_updater_creates_or_moves:
  "(\<not> Map_has i prev \<longrightarrow>
      upsertFinger_updater e i cx cy prev =
        (prev @ [(i, \<lparr>id_f = i, x_f = cx, y_f = cy,
                      color = fst (randomUniqueColor (Math_random e)
                                 (set (map color (Map_values prev)))),
                      createdAt = Date_now e\<rparr>)],
         [Snd_add]))
   \<and> (Map_has i prev \<longrightarrow>
      (\<exists>f. Map_get i prev = Some f
         \<and> Map_get i (fst (upsertFinger_updater e i cx cy prev))
             = Some (f\<lparr>x_f := cx, y_f := cy\<rparr>)
         \<and> color (f\<lparr>x_f := cx, y_f := cy\<rparr>) = color f
         \<and> createdAt (f\<lparr>x_f := cx, y_f := cy\<rparr>) = createdAt f
         \<and> id_f (f\<lparr>x_f := cx, y_f := cy\<rparr>) = id_f f)
      \<and> (\<forall>k. k \<noteq> i \<longrightarrow>
             Map_get k (fst (upsertFinger_updater e i cx cy prev)) = Map_get k prev)
      \<and> Map_keys (fst (upsertFinger_updater e i cx cy prev)) = Map_keys prev
      \<and> Map_size (fst (upsertFinger_updater e i cx cy prev)) = Map_size prev
      \<and> snd (upsertFinger_updater e i cx cy prev) = [])"
proof (cases "Map_has i prev")
  case False
  then show ?thesis
    by (simp add: upsertFinger_updater_def Let_def Map_set_absent)
next
  case True
  then obtain f where f: "Map_get i prev = Some f"
    using Map_has_get by blast
  have u: "upsertFinger_updater e i cx cy prev = (Map_set i (f\<lparr>x_f := cx, y_f := cy\<rparr>) prev, [])"
    using True f by (simp add: upsertFinger_updater_def Let_def)
  have "Map_size (Map_set i (f\<lparr>x_f := cx, y_f := cy\<rparr>) prev) = Map_size prev"
    using Map_keys_set_present [OF True, of "f\<lparr>x_f := cx, y_f := cy\<rparr>"]
    by (metis Map_keys_def Map_size_def length_map)
  with True f u show ?thesis
    by (simp add: Map_get_set Map_keys_set_present)
qed

theorem upsertFinger_updater_creates_or_moves_witness:
  "upsertFinger_updater env_zero 2 30 40 [(1, finger_A)] = ([(1, finger_A), (2, finger_B)], [Snd_add])
   \<and> Map_has 1 [(1, finger_A), (2, finger_B)]
   \<and> Map_get 1 (fst (upsertFinger_updater env_zero 1 55 66 [(1, finger_A), (2, finger_B)]))
       = Some (finger_A\<lparr>x_f := 55, y_f := 66\<rparr>)
   \<and> Map_get 2 (fst (upsertFinger_updater env_zero 1 55 66 [(1, finger_A), (2, finger_B)]))
       = Some finger_B
   \<and> Map_keys (fst (upsertFinger_updater env_zero 1 55 66 [(1, finger_A), (2, finger_B)])) = [1, 2]
   \<and> snd (upsertFinger_updater env_zero 1 55 66 [(1, finger_A), (2, finger_B)]) = []"
proof -
  have c: "fst (randomUniqueColor always_zero {''hsl(0 70% 45%)''}) = ''hsl(0 75% 50%)''"
    using randomUniqueColor_loop_spec [of 0 always_zero "{''hsl(0 70% 45%)''}"]
    by (auto simp: randomUniqueColor_def candidate_always_zero last_resort_always_zero)
  have a: "upsertFinger_updater env_zero 2 30 40 [(1, finger_A)]
      = ([(1, finger_A), (2, finger_B)], [Snd_add])"
    using upsertFinger_updater_creates_or_moves [of 2 "[(1, finger_A)]" env_zero 30 40] c
    by (simp add: Map_has_def Map_values_def Math_random_env_zero_fun Date_now_env_zero
        finger_A_def finger_B_def)
  have h: "Map_has 1 [(1, finger_A), (2, finger_B)]" by (simp add: Map_has_def)
  show ?thesis
    using a h upsertFinger_updater_creates_or_moves
      [of 1 "[(1, finger_A), (2, finger_B)]" env_zero 55 66]
    by (auto simp: Map_get_def Map_keys_def)
qed

text \<open>
  C6. Remove of a present id deletes its entry (one entry fewer, the id absent afterwards
  in a map with distinct keys, every other contact kept) and starts the sound \<open>remove\<close>
  exactly when a contact remains; when the map becomes empty no sound starts. Remove of
  an absent id returns the map as it is and starts no sound.
\<close>

theorem removeFinger_updater_deletes_or_ignores:
  "(Map_has i prev \<longrightarrow>
      fst (removeFinger_updater i prev) = Map_delete i prev
      \<and> Map_size (fst (removeFinger_updater i prev)) + 1 = Map_size prev
      \<and> (distinct (Map_keys prev) \<longrightarrow> \<not> Map_has i (fst (removeFinger_updater i prev)))
      \<and> (\<forall>k. k \<noteq> i \<longrightarrow> Map_get k (fst (removeFinger_updater i prev)) = Map_get k prev)
      \<and> snd (removeFinger_updater i prev)
          = (if Map_size (fst (removeFinger_updater i prev)) > 0 then [Snd_remove] else []))
   \<and> (\<not> Map_has i prev \<longrightarrow> removeFinger_updater i prev = (prev, []))"
  by (simp add: removeFinger_updater_def Let_def Map_size_delete Map_has_delete
      Map_get_delete_other)

theorem removeFinger_updater_deletes_or_ignores_witness:
  "Map_has 1 [(1, finger_A), (2, finger_B)]
   \<and> distinct (Map_keys [(1, finger_A), (2, finger_B)])
   \<and> removeFinger_updater 1 [(1, finger_A), (2, finger_B)] = ([(2, finger_B)], [Snd_remove])
   \<and> Map_has 2 [(2, finger_B)]
   \<and> removeFinger_updater 2 [(2, finger_B)] = ([], [])
   \<and> \<not> Map_has 1 [(2, finger_B)]
   \<and> removeFinger_updater 1 [(2, finger_B)] = ([(2, finger_B)], [])"
proof -
  have h1: "Map_has 1 [(1, finger_A), (2, finger_B)]" by (simp add: Map_has_def)
  have d1: "distinct (Map_keys [(1, finger_A), (2, finger_B)])" by (simp add: Map_keys_def)
  have h2: "Map_has 2 [(2, finger_B)]" by (simp add: Map_has_def)
  have h3: "\<not> Map_has 1 [(2, finger_B)]" by (simp add: Map_has_def)
  have a: "removeFinger_updater 1 [(1, finger_A), (2, finger_B)] = ([(2, finger_B)], [Snd_remove])"
    using removeFinger_updater_deletes_or_ignores [of 1 "[(1, finger_A), (2, finger_B)]"] h1
    by (simp add: prod_eq_iff Map_size_def)
  have b: "removeFinger_updater 2 [(2, finger_B)] = ([], [])"
    using removeFinger_updater_deletes_or_ignores [of 2 "[(2, finger_B)]"] h2
    by (simp add: prod_eq_iff Map_size_def)
  have c: "removeFinger_updater 1 [(2, finger_B)] = ([(2, finger_B)], [])"
    using removeFinger_updater_deletes_or_ignores [of 1 "[(2, finger_B)]"] h3
    by simp
  from h1 d1 h2 h3 a b c show ?thesis by simp
qed

lemma apply_op_distinct: "distinct (Map_keys m) \<Longrightarrow> distinct (Map_keys (apply_op opn m))"
proof (cases opn)
  case (Upsert e i cx cy)
  assume "distinct (Map_keys m)"
  then show ?thesis
    unfolding Upsert
    by (auto simp: upsertFinger_updater_def Let_def distinct_Map_set split: option.splits)
next
  case (Remove i)
  assume "distinct (Map_keys m)"
  then show ?thesis
    unfolding Remove by (simp add: removeFinger_updater_def Let_def distinct_Map_delete)
qed

lemma replay_distinct: "distinct (Map_keys m) \<Longrightarrow> distinct (Map_keys (replay ops m))"
  by (induction ops arbitrary: m) (simp_all add: apply_op_distinct)

lemma apply_op_size:
  "Map_size (apply_op opn m) + (if is_present_remove opn m then 1 else 0)
     = Map_size m + (if is_fresh_add opn m then 1 else 0)"
proof (cases opn)
  case (Upsert e i cx cy)
  show ?thesis
    unfolding Upsert
    using upsertFinger_updater_sizes [of e i cx cy m] by simp
next
  case (Remove i)
  show ?thesis
    unfolding Remove
    by (simp add: removeFinger_updater_def Let_def Map_size_delete)
qed

lemma replay_size:
  "Map_size (replay ops m) + present_removes ops m = Map_size m + fresh_adds ops m"
proof (induction ops arbitrary: m)
  case Nil
  show ?case by simp
next
  case (Cons opn ops)
  show ?case
    using Cons.IH [of "apply_op opn m"] apply_op_size [of opn m] by simp
qed

text \<open>
  C3. Replaying any sequence of upserts and removes from the empty registry, the registry
  has no two entries with the same id after any number of the operations, and its final
  size is the number of upserts of an id absent at that moment minus the number of
  removes of an id present at that moment (which is never the larger one).
\<close>

theorem replay_distinct_ids_and_size:
  "distinct (Map_keys (replay (take n ops) []))
   \<and> present_removes ops [] \<le> fresh_adds ops []
   \<and> Map_size (replay ops []) = fresh_adds ops [] - present_removes ops []"
proof -
  have "distinct (Map_keys (replay (take n ops) []))"
    by (rule replay_distinct) (simp add: Map_keys_def)
  moreover have "Map_size (replay ops []) + present_removes ops [] = fresh_adds ops []"
    using replay_size [of ops "[]"] by (simp add: Map_size_def)
  ultimately show ?thesis by arith
qed

theorem replay_distinct_ids_and_size_witness:
  "fresh_adds sample_ops [] = 2
   \<and> present_removes sample_ops [] = 1
   \<and> Map_size (replay sample_ops []) = 1
   \<and> distinct (Map_keys (replay (take 3 sample_ops) []))"
proof -
  have a: "fresh_adds sample_ops [] = 2"
    by (simp add: sample_ops_def upsertFinger_updater_def removeFinger_updater_def Let_def
        Map_has_def Map_get_def)
  have r: "present_removes sample_ops [] = 1"
    by (simp add: sample_ops_def upsertFinger_updater_def removeFinger_updater_def Let_def
        Map_has_def Map_get_def)
  from a r replay_distinct_ids_and_size [of 3 sample_ops] show ?thesis by simp
qed

subsection \<open>The dependency string of the effect\<close>

lemma digit_not_comma: "d < 10 \<Longrightarrow> digit d \<noteq> CHR '',''"
proof -
  assume "d < 10"
  then have "digit d \<in> set ''0123456789''"
    unfolding digit_def by (intro nth_mem) simp
  then show ?thesis by auto
qed

lemma show_nat_no_comma: "CHR '','' \<notin> set (show_nat n)"
proof (induction n rule: show_nat.induct)
  case (1 n)
  show ?case
  proof (cases "n < 10")
    case True
    then show ?thesis
      using digit_not_comma [of n] by (subst show_nat.simps) auto
  next
    case False
    then have "CHR '','' \<notin> set (show_nat (n div 10))" by (rule "1.IH")
    moreover have "digit (n mod 10) \<noteq> CHR '',''" by (rule digit_not_comma) simp
    ultimately show ?thesis
      using False by (subst show_nat.simps) auto
  qed
qed

lemma show_nat_not_empty: "show_nat n \<noteq> []"
  by (subst show_nat.simps) simp

lemma show_int_no_comma: "CHR '','' \<notin> set (show_int i)"
  by (simp add: show_int_def show_nat_no_comma)

lemma show_int_not_empty: "show_int i \<noteq> []"
  by (simp add: show_int_def show_nat_not_empty)

lemma keys_toString_empty_iff: "keys_toString ks = [] \<longleftrightarrow> ks = []"
  by (induction ks rule: keys_toString.induct) (simp_all add: show_int_not_empty)

lemma keys_toString_commas:
  "count_list (keys_toString ks) (CHR '','') = length ks - 1"
proof (induction ks rule: keys_toString.induct)
  case 1
  show ?case by simp
next
  case (2 k)
  show ?case using show_int_no_comma [of k] by (simp add: count_list_0_iff)
next
  case (3 k k' ks)
  have "count_list (show_int k) (CHR '','') = 0"
    using show_int_no_comma [of k] by (simp add: count_list_0_iff)
  with 3 show ?case by simp
qed

lemma keys_toString_length:
  assumes "keys_toString ks = keys_toString ks'"
  shows "length ks = length ks'"
proof (cases "ks = [] \<or> ks' = []")
  case True
  then show ?thesis
    using assms keys_toString_empty_iff [of ks] keys_toString_empty_iff [of ks'] by auto
next
  case False
  then have "0 < length ks" "0 < length ks'" by simp_all
  moreover have "length ks - 1 = length ks' - 1"
    using assms keys_toString_commas [of ks] keys_toString_commas [of ks'] by simp
  ultimately show ?thesis by arith
qed

subsection \<open>What the timer operations change\<close>

lemma clearEliminationTimer_frame [simp]:
  "fingers (clearEliminationTimer s) = fingers s"
  "winnerId (clearEliminationTimer s) = winnerId s"
  "played (clearEliminationTimer s) = played s"
  "bgColor (clearEliminationTimer s) = bgColor s"
  by (simp_all add: clearEliminationTimer_def clearInterval_def split: option.splits)

lemma resetEliminationTimer_frame [simp]:
  "fingers (resetEliminationTimer s) = fingers s"
  "winnerId (resetEliminationTimer s) = winnerId s"
  "played (resetEliminationTimer s) = played s"
  by (simp_all add: resetEliminationTimer_def setInterval_def Let_def)

lemma reconcile_frame [simp]:
  "fingers (reconcile s) = fingers s"
  "played (reconcile s) = played s"
  by (simp_all add: reconcile_def Let_def)

lemma commit_frame [simp]:
  "fingers (commit s s') = fingers s'"
  "played (commit s s') = played s'"
  by (simp_all add: commit_def)

lemma reconcile_winnerId:
  "winnerId (reconcile s) = (if Map_size (fingers s) = 0 then None else winnerId s)"
  by (simp add: reconcile_def Let_def)

lemma clearEliminationTimer_tracked:
  assumes "timer_tracked s"
  shows "timer_tracked (clearEliminationTimer s)"
    and "intervals (clearEliminationTimer s) = []"
    and "eliminationTimerRef (clearEliminationTimer s) = None"
  using assms
  by (auto simp: timer_tracked_def clearEliminationTimer_def clearInterval_def
      split: option.splits)

lemma resetEliminationTimer_tracked:
  assumes "timer_tracked s"
  shows "timer_tracked (resetEliminationTimer s)"
    and "timer_running (resetEliminationTimer s) \<longleftrightarrow> 2 \<le> Map_size (fingers s)"
proof -
  let ?c = "clearEliminationTimer s"
  note c = clearEliminationTimer_tracked [OF assms]
  have n: "0 < nextHandle ?c" using c(1) by (simp add: timer_tracked_def)
  show "timer_tracked (resetEliminationTimer s)"
    using c n by (simp add: resetEliminationTimer_def Let_def setInterval_def timer_tracked_def)
  show "timer_running (resetEliminationTimer s) \<longleftrightarrow> 2 \<le> Map_size (fingers s)"
    using c by (auto simp: resetEliminationTimer_def Let_def setInterval_def timer_running_def)
qed

lemma reconcile_tracked:
  assumes "timer_tracked s"
  shows "timer_tracked (reconcile s)"
    and "timer_running (reconcile s) \<longleftrightarrow> 2 \<le> Map_size (fingers s)"
proof -
  note c = clearEliminationTimer_tracked [OF assms]
  note r = resetEliminationTimer_tracked [OF assms]
  consider "1 < Map_size (fingers s)" | "Map_size (fingers s) = 1" | "Map_size (fingers s) = 0"
    by arith
  then have "timer_tracked (reconcile s)
      \<and> (timer_running (reconcile s) \<longleftrightarrow> 2 \<le> Map_size (fingers s))"
  proof cases
    case 1
    then show ?thesis using r by (simp add: reconcile_def)
  next
    case 2
    then show ?thesis using c by (simp add: reconcile_def Let_def timer_running_def)
  next
    case 3
    then show ?thesis
      using c by (simp add: reconcile_def Let_def timer_running_def timer_tracked_def)
  qed
  then show "timer_tracked (reconcile s)"
    and "timer_running (reconcile s) \<longleftrightarrow> 2 \<le> Map_size (fingers s)" by simp_all
qed

subsection \<open>The elimination tick\<close>

lemma Map_size_one:
  assumes "Map_size m = 1"
  obtains k f where "m = [(k, f)]"
  using assms by (cases m) (auto simp: Map_size_def)

lemma eliminationTick_small:
  "Map_size (fingers s) \<le> 1 \<Longrightarrow> eliminationTick e s = clearEliminationTimer s"
  by (simp add: eliminationTick_def)

lemma eliminationTick_next:
  assumes "2 \<le> Map_size (fingers s)"
  shows "fingers (eliminationTick e s) =
     (case array_at (Map_keys (fingers s))
             (Math_floor (round_double
                (Math_random e 0 * real (length (Map_keys (fingers s)))))) of
        None \<Rightarrow> fingers s
      | Some k \<Rightarrow> Map_delete k (fingers s))"
  using assms by (simp add: eliminationTick_def Let_def)

lemma eliminationTick_timer:
  assumes "2 \<le> Map_size (fingers s)"
  shows "intervals (eliminationTick e s) = intervals s"
    and "eliminationTimerRef (eliminationTick e s) = eliminationTimerRef s"
    and "nextHandle (eliminationTick e s) = nextHandle s"
  using assms
  by (auto simp: eliminationTick_def Let_def playSound_def split: list.splits option.splits)

lemma eliminationTick_played:
  assumes "2 \<le> Map_size (fingers s)"
  shows "played (eliminationTick e s) =
     played s @ (if 0 < Map_size (fingers (eliminationTick e s)) then [Snd_remove] else [])
       @ (if Map_size (fingers (eliminationTick e s)) = 1 then [Snd_win] else [])"
proof (cases "Map_size (fingers (eliminationTick e s)) = 1")
  case False
  then show ?thesis
    using assms unfolding eliminationTick_next [OF assms]
    by (simp add: eliminationTick_def Let_def playSound_def)
next
  case True
  then obtain k f where n: "fingers (eliminationTick e s) = [(k, f)]"
    by (rule Map_size_one)
  show ?thesis
    using assms n unfolding eliminationTick_next [OF assms]
    by (simp add: eliminationTick_def Let_def playSound_def Map_size_def Map_keys_def
        Map_get_def)
qed

lemma eliminationTick_winnerId:
  assumes "2 \<le> Map_size (fingers s)"
  shows "winnerId (eliminationTick e s) =
     (case fingers (eliminationTick e s) of
        [(k, f)] \<Rightarrow> Some k
      | _ \<Rightarrow> winnerId s)"
proof (cases "Map_size (fingers (eliminationTick e s)) = 1")
  case False
  then have "\<And>k f. fingers (eliminationTick e s) \<noteq> [(k, f)]"
    by (auto simp: Map_size_def)
  then have "(case fingers (eliminationTick e s) of [(k, f)] \<Rightarrow> Some k | _ \<Rightarrow> winnerId s)
      = winnerId s"
    by (auto split: list.splits)
  moreover have "winnerId (eliminationTick e s) = winnerId s"
    using False assms unfolding eliminationTick_next [OF assms]
    by (simp add: eliminationTick_def Let_def playSound_def)
  ultimately show ?thesis by simp
next
  case True
  then obtain k f where n: "fingers (eliminationTick e s) = [(k, f)]"
    by (rule Map_size_one)
  show ?thesis
    using assms n unfolding eliminationTick_next [OF assms]
    by (simp add: eliminationTick_def Let_def playSound_def Map_size_def Map_keys_def
        Map_get_def)
qed

lemma draw_index:
  fixes r :: real
  assumes "round_double r = r" and "0 \<le> r" and "r < 1"
    and "0 < length ks" and "length ks < 2 ^ 53"
  shows "\<exists>j<length ks. Math_floor (round_double (r * real (length ks))) = int j \<and>
           array_at ks (Math_floor (round_double (r * real (length ks)))) = Some (ks ! j)"
proof -
  let ?i = "Math_floor (round_double (r * real (length ks)))"
  note p = round_double_product [OF assms]
  have lo: "0 \<le> ?i" using p by (simp add: Math_floor_def)
  have hi: "?i < int (length ks)" using p by (simp add: Math_floor_def floor_less_iff)
  from lo hi have "nat ?i < length ks" "?i = int (nat ?i)" by simp_all
  moreover have "array_at ks ?i = Some (ks ! nat ?i)"
    using lo hi by (simp add: array_at_def)
  ultimately show ?thesis by blast
qed

lemma Map_has_nth: "j < length (Map_keys m) \<Longrightarrow> Map_has (Map_keys m ! j) m"
  by (simp add: Map_has_def Map_keys_def)

subsection \<open>The sample run\<close>

lemma randomUniqueColor_zero_free:
  "fst (randomUniqueColor always_zero {}) = ''hsl(0 70% 45%)''"
  by (subst randomUniqueColor_def, subst randomUniqueColor_loop.simps)
    (simp add: always_zero_def hsl_def Math_floor_def show_int_def show_nat.simps digit_def)

lemma randomUniqueColor_zero_taken:
  "fst (randomUniqueColor always_zero {''hsl(0 70% 45%)''}) = ''hsl(0 75% 50%)''"
  using randomUniqueColor_loop_spec [of 0 always_zero "{''hsl(0 70% 45%)''}"]
  by (auto simp: randomUniqueColor_def candidate_always_zero last_resort_always_zero)

lemma keys_toString_samples:
  "keys_toString [1] = ''1''" "keys_toString [2] = ''2''" "keys_toString [1, 2] = ''1,2''"
  by (simp_all add: show_int_def show_nat.simps digit_def)

lemma game_A_eq:
  "game_A = \<lparr>fingers = [(1, finger_A)], listenerFingers = [(1, finger_A)],
     winnerId = None, bgColor = DEFAULT_BG,
     eliminationTimerRef = None, intervals = [], nextHandle = 1, played = [Snd_add]\<rparr>"
  by (simp add: game_A_def step_def onPointerDown_def touch_A_def upsertFinger_def
      setFingers_def upsertFinger_updater_def Let_def Map_has_def Map_values_def initial_def
      Math_random_env_zero_fun Date_now_env_zero randomUniqueColor_zero_free finger_A_def
      commit_def Map_keys_def
      keys_toString_samples reconcile_def Map_size_def clearEliminationTimer_def)

lemma game_AB_eq:
  "game_AB = \<lparr>fingers = [(1, finger_A), (2, finger_B)],
     listenerFingers = [(1, finger_A), (2, finger_B)], winnerId = None, bgColor = DEFAULT_BG,
     eliminationTimerRef = Some 1, intervals = [1], nextHandle = 2,
     played = [Snd_add, Snd_add]\<rparr>"
proof -
  have c: "color finger_A = ''hsl(0 70% 45%)''" by (simp add: finger_A_def)
  have u: "upsertFinger_updater env_zero 2 30 40 [(1, finger_A)]
      = ([(1, finger_A), (2, finger_B)], [Snd_add])"
    by (simp add: upsertFinger_updater_def Let_def Map_has_def Map_values_def c
        Math_random_env_zero_fun Date_now_env_zero randomUniqueColor_zero_taken finger_B_def)
  show ?thesis
    by (simp add: game_AB_def game_A_eq step_def onPointerDown_def touch_B_def upsertFinger_def
        setFingers_def u commit_def Map_keys_def keys_toString_samples reconcile_def
        Map_size_def resetEliminationTimer_def clearEliminationTimer_def setInterval_def)
qed

lemma game_AB_tick_eq:
  "game_AB_tick = \<lparr>fingers = [(2, finger_B)], listenerFingers = [(2, finger_B)],
     winnerId = Some 2, bgColor = DEFAULT_BG,
     eliminationTimerRef = None, intervals = [], nextHandle = 2,
     played = [Snd_add, Snd_add, Snd_remove, Snd_win]\<rparr>"
  by (simp add: game_AB_tick_def game_AB_eq step_def eliminationTick_def Let_def Map_size_def
      Map_keys_def Math_random_env_zero round_double_def Math_floor_def array_at_def
      playSound_def
      Map_get_def commit_def keys_toString_samples reconcile_def clearEliminationTimer_def
      clearInterval_def)

lemma reachable_samples: "reachable game_A" "reachable game_AB" "reachable game_AB_tick"
proof -
  show a: "reachable game_A"
    unfolding game_A_def by (intro reachable_step reachable_initial)
  show b: "reachable game_AB"
    unfolding game_AB_def by (intro reachable_step a)
  show "reachable game_AB_tick"
    unfolding game_AB_tick_def by (intro reachable_step b)
qed

subsection \<open>Elimination\<close>

text \<open>
  C9. When a tick finds at least two contacts (fewer than \<open>2 ^ 32\<close>, the bound on the
  length of an array) and the draw \<open>r\<close> is a double with \<open>0 \<le> r < 1\<close>, the index
  \<open>floor (r * keys.length)\<close>, with the product rounded to a double as the machine does,
  lies within the array of keys, the id read there is an id of the registry, its entry is
  the one deleted, and the registry has exactly one contact fewer after the tick.
\<close>

theorem eliminationTick_index_in_bounds:
  assumes "2 \<le> Map_size (fingers s)" and "Map_size (fingers s) < 2 ^ 32"
    and "0 \<le> Math_random e 0" and "Math_random e 0 < 1"
  shows "\<exists>j k. j < length (Map_keys (fingers s))
      \<and> Math_floor (round_double
            (Math_random e 0 * real (length (Map_keys (fingers s))))) = int j
      \<and> array_at (Map_keys (fingers s)) (int j) = Some k
      \<and> Map_has k (fingers s)
      \<and> fingers (eliminationTick e s) = Map_delete k (fingers s)
      \<and> Map_size (fingers (eliminationTick e s)) + 1 = Map_size (fingers s)"
proof -
  let ?ks = "Map_keys (fingers s)"
  have len: "length ?ks = Map_size (fingers s)" by (simp add: Map_size_def Map_keys_def)
  have pos: "0 < length ?ks" using assms(1) len by simp
  have "(2::nat) ^ 32 \<le> 2 ^ 53" by simp
  then have small: "length ?ks < 2 ^ 53" using assms(2) len by simp
  have dbl: "round_double (Math_random e 0) = Math_random e 0"
    by (simp add: Math_random_def real_of_double_rounded)
  from draw_index [OF dbl assms(3,4) pos small]
  obtain j where j: "j < length ?ks"
    and i: "Math_floor (round_double (Math_random e 0 * real (length ?ks))) = int j"
    and a: "array_at ?ks (Math_floor (round_double (Math_random e 0 * real (length ?ks))))
        = Some (?ks ! j)"
    by blast
  have h: "Map_has (?ks ! j) (fingers s)" using j by (rule Map_has_nth)
  have n: "fingers (eliminationTick e s) = Map_delete (?ks ! j) (fingers s)"
    using a by (simp add: eliminationTick_next [OF assms(1)])
  have "Map_size (fingers (eliminationTick e s)) + 1 = Map_size (fingers s)"
    unfolding n using Map_size_delete [OF h] by simp
  with j i a h n show ?thesis by auto
qed

theorem eliminationTick_index_in_bounds_witness:
  "2 \<le> Map_size (fingers game_AB) \<and> Map_size (fingers game_AB) < 2 ^ 32
   \<and> 0 \<le> Math_random env_zero 0 \<and> Math_random env_zero 0 < 1
   \<and> fingers (eliminationTick env_zero game_AB) = [(2, finger_B)]
   \<and> 0 \<le> Math_random env_high 0 \<and> Math_random env_high 0 < 1
   \<and> fingers (eliminationTick env_high game_AB) = [(1, finger_A)]
   \<and> 2 \<le> Map_size (fingers game_ABC) \<and> Map_size (fingers game_ABC) < 2 ^ 32
   \<and> 0 \<le> Math_random env_third 0 \<and> Math_random env_third 0 < 1
   \<and> Math_floor (round_double
         (Math_random env_third 0 * real (length (Map_keys (fingers game_ABC))))) = 1
   \<and> fingers (eliminationTick env_third game_ABC) = [(1, finger_A), (3, finger_C)]
   \<and> Map_size (fingers (eliminationTick env_third game_ABC)) + 1
       = Map_size (fingers game_ABC)"
proof -
  have s: "2 \<le> Map_size (fingers game_AB)" "Map_size (fingers game_AB) < 2 ^ 32"
    by (simp_all add: game_AB_eq Map_size_def)
  have s3: "2 \<le> Map_size (fingers game_ABC)" "Map_size (fingers game_ABC) < 2 ^ 32"
    by (simp_all add: game_ABC_def Map_size_def)
  have r: "0 \<le> Math_random env_zero 0" "Math_random env_zero 0 < 1"
    by (simp_all add: Math_random_env_zero)
  have r': "0 \<le> Math_random env_high 0" "Math_random env_high 0 < 1"
    by (simp_all add: Math_random_env_high)
  have r3: "0 \<le> Math_random env_third 0" "Math_random env_third 0 < 1"
    by (simp_all add: Math_random_env_third)
  have i0: "Math_floor (round_double
      (Math_random env_zero 0 * real (length (Map_keys (fingers game_AB))))) = 0"
    by (simp add: Math_random_env_zero round_double_def Math_floor_def)
  have i1: "Math_floor (round_double
      (Math_random env_high 0 * real (length (Map_keys (fingers game_AB))))) = 1"
    by (simp add: Math_random_env_high game_AB_eq Map_keys_def Math_floor_def
        round_double_three_halves)
  have i3: "Math_floor (round_double
      (Math_random env_third 0 * real (length (Map_keys (fingers game_ABC))))) = 1"
    using round_double_third_times_three
    by (simp add: Math_random_env_third game_ABC_def Map_keys_def Math_floor_def)
  from eliminationTick_index_in_bounds [OF s r]
  obtain j k where "Math_floor (round_double (Math_random env_zero 0
        * real (length (Map_keys (fingers game_AB))))) = int j"
    and "array_at (Map_keys (fingers game_AB)) (int j) = Some k"
    and "fingers (eliminationTick env_zero game_AB) = Map_delete k (fingers game_AB)"
    by blast
  then have low: "fingers (eliminationTick env_zero game_AB) = [(2, finger_B)]"
    unfolding i0 by (auto simp: game_AB_eq Map_keys_def array_at_def)
  from eliminationTick_index_in_bounds [OF s r']
  obtain j' k' where "Math_floor (round_double (Math_random env_high 0
        * real (length (Map_keys (fingers game_AB))))) = int j'"
    and "array_at (Map_keys (fingers game_AB)) (int j') = Some k'"
    and "fingers (eliminationTick env_high game_AB) = Map_delete k' (fingers game_AB)"
    by blast
  then have high: "fingers (eliminationTick env_high game_AB) = [(1, finger_A)]"
    unfolding i1 by (auto simp: game_AB_eq Map_keys_def array_at_def)
  from eliminationTick_index_in_bounds [OF s3 r3]
  obtain j3 k3 where "Math_floor (round_double (Math_random env_third 0
        * real (length (Map_keys (fingers game_ABC))))) = int j3"
    and "array_at (Map_keys (fingers game_ABC)) (int j3) = Some k3"
    and "fingers (eliminationTick env_third game_ABC) = Map_delete k3 (fingers game_ABC)"
    and "Map_size (fingers (eliminationTick env_third game_ABC)) + 1
        = Map_size (fingers game_ABC)"
    by blast
  then have third: "fingers (eliminationTick env_third game_ABC) = [(1, finger_A), (3, finger_C)]"
    "Map_size (fingers (eliminationTick env_third game_ABC)) + 1 = Map_size (fingers game_ABC)"
    unfolding i3 by (auto simp: game_ABC_def Map_keys_def array_at_def)
  from s s3 r r' r3 i3 low high third show ?thesis by blast
qed

text \<open>
  C1 (as the code has it). A tick that takes the registry from two contacts to one starts
  two sounds, \<open>remove\<close> for the eliminated contact and then \<open>win\<close> for the survivor,
  each once; the two are not exclusive.
\<close>

theorem tick_two_to_one_plays_remove_then_win:
  assumes "h \<in> set (intervals s)"
    and "Map_size (fingers s) = 2"
    and "Map_size (fingers (step e (IntervalTick h) s)) = 1"
  shows "played (step e (IntervalTick h) s) = played s @ [Snd_remove, Snd_win]"
proof -
  have two: "2 \<le> Map_size (fingers s)" using assms(2) by simp
  have "Map_size (fingers (eliminationTick e s)) = 1"
    using assms(1,3) by (simp add: step_def)
  then have "played (eliminationTick e s) = played s @ [Snd_remove, Snd_win]"
    by (simp add: eliminationTick_played [OF two])
  then show ?thesis using assms(1) by (simp add: step_def)
qed

theorem tick_two_to_one_plays_remove_then_win_witness:
  "1 \<in> set (intervals game_AB) \<and> Map_size (fingers game_AB) = 2
   \<and> Map_size (fingers (step env_zero (IntervalTick 1) game_AB)) = 1
   \<and> played (step env_zero (IntervalTick 1) game_AB) = played game_AB @ [Snd_remove, Snd_win]"
proof -
  have a: "1 \<in> set (intervals game_AB)" "Map_size (fingers game_AB) = 2"
    by (simp_all add: game_AB_eq Map_size_def)
  have b: "Map_size (fingers (step env_zero (IntervalTick 1) game_AB)) = 1"
    using game_AB_tick_eq by (simp add: game_AB_tick_def Map_size_def)
  from a b tick_two_to_one_plays_remove_then_win [OF a b] show ?thesis by simp
qed

text \<open>The claim as written fails on the sample run: the tick that leaves the second finger
  alone starts \<open>remove\<close> as well as \<open>win\<close>.\<close>

theorem tick_two_to_one_counterexample:
  "Map_size (fingers game_AB) = 2 \<and> Map_size (fingers game_AB_tick) = 1
   \<and> played game_AB = [Snd_add, Snd_add]
   \<and> played game_AB_tick = [Snd_add, Snd_add, Snd_remove, Snd_win]
   \<and> Snd_remove \<in> set (drop (length (played game_AB)) (played game_AB_tick))
   \<and> length (drop (length (played game_AB)) (played game_AB_tick)) = 2"
  by (simp add: game_AB_eq game_AB_tick_eq Map_size_def)

subsection \<open>Pointer events\<close>

lemma upsertFinger_present:
  assumes "Map_has i (fingers s)"
  shows "\<exists>f. Map_get i (fingers s) = Some f \<and>
     upsertFinger e i cx cy s = s\<lparr>fingers := Map_set i (f\<lparr>x_f := cx, y_f := cy\<rparr>) (fingers s)\<rparr>"
proof -
  from assms obtain f where f: "Map_get i (fingers s) = Some f"
    using Map_has_get by blast
  then show ?thesis
    using assms by (simp add: upsertFinger_def setFingers_def upsertFinger_updater_def Let_def)
qed

lemma upsertFinger_absent:
  assumes "\<not> Map_has i (fingers s)"
  shows "fingers (upsertFinger e i cx cy s)
       = fingers s @ [(i, \<lparr>id_f = i, x_f = cx, y_f = cy,
            color = fst (randomUniqueColor (Math_random e)
                       (set (map color (Map_values (fingers s))))),
            createdAt = Date_now e\<rparr>)]"
    and "played (upsertFinger e i cx cy s) = played s @ [Snd_add]"
  using assms
  by (simp_all add: upsertFinger_def setFingers_def upsertFinger_updater_def Let_def
      Map_set_absent)

lemma commit_same_keys:
  "Map_keys (fingers s') = Map_keys (fingers s) \<Longrightarrow>
     commit s s' = s'\<lparr>listenerFingers := fingers s'\<rparr>"
  by (simp add: commit_def)

lemma step_upsert_present:
  assumes "Map_has i (fingers s)"
  shows "\<exists>f. Map_get i (fingers s) = Some f \<and>
     commit s (upsertFinger e i cx cy s)
       = s\<lparr>fingers := Map_set i (f\<lparr>x_f := cx, y_f := cy\<rparr>) (fingers s),
           listenerFingers := Map_set i (f\<lparr>x_f := cx, y_f := cy\<rparr>) (fingers s)\<rparr>"
proof -
  from upsertFinger_present [OF assms, of e cx cy]
  obtain f where f: "Map_get i (fingers s) = Some f"
    and u: "upsertFinger e i cx cy s
        = s\<lparr>fingers := Map_set i (f\<lparr>x_f := cx, y_f := cy\<rparr>) (fingers s)\<rparr>"
    by blast
  have "commit s (upsertFinger e i cx cy s)
      = (upsertFinger e i cx cy s)\<lparr>listenerFingers := fingers (upsertFinger e i cx cy s)\<rparr>"
    by (rule commit_same_keys) (simp add: u Map_keys_set_present [OF assms])
  with f u show ?thesis by simp
qed

lemma fingers_step_PointerUp:
  "fingers (step e (PointerUp pe) s) = fst (removeFinger_updater (pointerId pe) (fingers s))"
  by (simp add: step_def onPointerUp_def removeFinger_def setFingers_def split: prod.splits)

lemma listenerFingers_step: "listenerFingers (step e ev s) = fingers (step e ev s)"
  by (simp add: step_def commit_def Let_def)

lemma released_absent:
  assumes "distinct (Map_keys (fingers s))"
  shows "\<not> Map_has (pointerId pe) (fingers (step e (PointerUp pe) s))"
  unfolding fingers_step_PointerUp
  using assms by (simp add: removeFinger_updater_def Let_def Map_has_delete)

text \<open>When the listeners are those of the current map, a move of a pointer that is not
  in the registry changes nothing, and a move of a registered pointer changes the
  position of its contact only. A step ends with the render, so this covers the move
  that follows the release of its pointer.\<close>

lemma pointer_move_current_listener:
  assumes cur: "listenerFingers s = fingers s"
  shows "\<not> Map_has (pointerId pe) (fingers s) \<Longrightarrow> step e (PointerMove pe) s = s"
    and "Map_has (pointerId pe) (fingers s) \<Longrightarrow>
        \<exists>f. Map_get (pointerId pe) (fingers s) = Some f \<and>
           step e (PointerMove pe) s =
             (if \<not> isPrimary pe \<and> pointerType pe = ''mouse'' then s
              else s\<lparr>fingers := Map_set (pointerId pe)
                      (f\<lparr>x_f := clientX pe, y_f := clientY pe\<rparr>) (fingers s),
                    listenerFingers := Map_set (pointerId pe)
                      (f\<lparr>x_f := clientX pe, y_f := clientY pe\<rparr>) (fingers s)\<rparr>)"
proof -
  have same: "commit s s = s"
    using cur [symmetric] by (simp add: commit_def)
  show "step e (PointerMove pe) s = s" if "\<not> Map_has (pointerId pe) (fingers s)"
    using that cur same by (simp add: step_def onPointerMove_def)
  show "\<exists>f. Map_get (pointerId pe) (fingers s) = Some f \<and>
       step e (PointerMove pe) s =
         (if \<not> isPrimary pe \<and> pointerType pe = ''mouse'' then s
          else s\<lparr>fingers := Map_set (pointerId pe)
                  (f\<lparr>x_f := clientX pe, y_f := clientY pe\<rparr>) (fingers s),
                listenerFingers := Map_set (pointerId pe)
                  (f\<lparr>x_f := clientX pe, y_f := clientY pe\<rparr>) (fingers s)\<rparr>)"
    if h: "Map_has (pointerId pe) (fingers s)"
  proof (cases "\<not> isPrimary pe \<and> pointerType pe = ''mouse''")
    case True
    then have "step e (PointerMove pe) s = s"
      using same by (simp add: step_def onPointerMove_def)
    with True Map_has_get [OF h] show ?thesis by auto
  next
    case False
    then have "step e (PointerMove pe) s
        = commit s (upsertFinger e (pointerId pe) (clientX pe) (clientY pe) s)"
      using h cur by (auto simp: step_def onPointerMove_def)
    with False step_upsert_present [OF h, of e "clientX pe" "clientY pe"] show ?thesis
      by auto
  qed
qed

lemma pointer_move_after_release:
  assumes "distinct (Map_keys (fingers s))" and "pointerId pm = pointerId pe"
  shows "step e (PointerMove pm) (step e' (PointerUp pe) s) = step e' (PointerUp pe) s"
  using released_absent [OF assms(1), of pe e'] assms(2)
  by (intro pointer_move_current_listener(1) listenerFingers_step) simp

text \<open>Between an update and the render that follows it the listeners still read the map
  of the render before. A move of a pointer that this map holds and the current map does
  not passes the test of the listener, and the updater creates the contact.\<close>

lemma stale_move_creates_contact:
  assumes "Map_has (pointerId pe) (listenerFingers s)"
    and "\<not> Map_has (pointerId pe) (fingers s)"
    and "isPrimary pe \<or> pointerType pe \<noteq> ''mouse''"
  shows "fingers (handle e (PointerMove pe) s)
       = fingers s @ [(pointerId pe, \<lparr>id_f = pointerId pe, x_f = clientX pe, y_f = clientY pe,
            color = fst (randomUniqueColor (Math_random e)
                       (set (map color (Map_values (fingers s))))),
            createdAt = Date_now e\<rparr>)]"
    and "played (handle e (PointerMove pe) s) = played s @ [Snd_add]"
  using assms upsertFinger_absent [OF assms(2), of e "clientX pe" "clientY pe"]
  by (auto simp: onPointerMove_def)

lemma game_AB_tick_pending_eq:
  "game_AB_tick_pending = \<lparr>fingers = [(2, finger_B)],
     listenerFingers = [(1, finger_A), (2, finger_B)], winnerId = Some 2,
     bgColor = DEFAULT_BG, eliminationTimerRef = Some 1, intervals = [1], nextHandle = 2,
     played = [Snd_add, Snd_add, Snd_remove, Snd_win]\<rparr>"
  by (simp add: game_AB_tick_pending_def game_AB_eq eliminationTick_def Let_def Map_size_def
      Map_keys_def Math_random_env_zero round_double_def Math_floor_def array_at_def
      playSound_def Map_get_def)

text \<open>
  C8. The code does not do what the claim says in one case. Two fingers are down and the
  interval fires: the tick eliminates the first finger. Before the component renders
  again a move of the first pointer arrives. The registry does not hold its id, so the
  claim has the event ignored; but the listener tests the map of the render before,
  which holds the id, and the updater, finding the id absent, creates the contact again
  and starts the sound \<open>add\<close>.
\<close>

theorem move_after_tick_recreates_contact:
  "fingers game_AB_tick_pending = [(2, finger_B)]
   \<and> Map_has (pointerId touch_A_moved) (fingers game_AB_tick_pending) = False
   \<and> Map_has (pointerId touch_A_moved) (listenerFingers game_AB_tick_pending)
   \<and> fingers (handle env_zero (PointerMove touch_A_moved) game_AB_tick_pending)
       = [(2, finger_B), (1, finger_A_again)]
   \<and> fingers game_AB_revived = [(2, finger_B), (1, finger_A_again)]
   \<and> played game_AB_revived = [Snd_add, Snd_add, Snd_remove, Snd_win, Snd_add]"
proof -
  have p: "fingers game_AB_tick_pending = [(2, finger_B)]"
    "listenerFingers game_AB_tick_pending = [(1, finger_A), (2, finger_B)]"
    "played game_AB_tick_pending = [Snd_add, Snd_add, Snd_remove, Snd_win]"
    by (simp_all add: game_AB_tick_pending_eq)
  have a: "Map_has (pointerId touch_A_moved) (listenerFingers game_AB_tick_pending)"
    and b: "\<not> Map_has (pointerId touch_A_moved) (fingers game_AB_tick_pending)"
    and c: "isPrimary touch_A_moved \<or> pointerType touch_A_moved \<noteq> ''mouse''"
    by (simp_all add: p touch_A_moved_def Map_has_def)
  have col: "color finger_B = ''hsl(0 75% 50%)''" by (simp add: finger_B_def)
  have free: "fst (randomUniqueColor always_zero {''hsl(0 75% 50%)''}) = ''hsl(0 70% 45%)''"
    by (subst randomUniqueColor_def, subst randomUniqueColor_loop.simps)
      (simp add: always_zero_def hsl_def Math_floor_def show_int_def show_nat.simps digit_def)
  have f: "fingers (handle env_zero (PointerMove touch_A_moved) game_AB_tick_pending)
      = [(2, finger_B), (1, finger_A_again)]"
    unfolding stale_move_creates_contact(1) [OF a b c]
    by (simp add: p touch_A_moved_def Map_values_def col Math_random_env_zero_fun free
        Date_now_env_zero finger_A_again_def)
  have s: "played (handle env_zero (PointerMove touch_A_moved) game_AB_tick_pending)
      = [Snd_add, Snd_add, Snd_remove, Snd_win, Snd_add]"
    unfolding stale_move_creates_contact(2) [OF a b c] by (simp add: p)
  from p a b f s show ?thesis by (simp add: game_AB_revived_def)
qed

text \<open>
  C10. An event that only updates the position of a registered contact (a move, or a
  second down event, for an id that is present) leaves the keys of the registry, and with
  them the dependency string of the timer effect, as they are; the effect does not run:
  the ref, the running intervals and the next handle are the same after the step, so
  the timer was neither stopped, nor started, nor restarted.
\<close>

theorem position_update_keeps_timer:
  assumes "Map_has (pointerId pe) (fingers s)"
    and "ev = PointerMove pe \<or> ev = PointerDown pe"
  shows "keys_toString (Map_keys (fingers (step e ev s))) = keys_toString (Map_keys (fingers s))
     \<and> Map_keys (fingers (step e ev s)) = Map_keys (fingers s)
     \<and> eliminationTimerRef (step e ev s) = eliminationTimerRef s
     \<and> intervals (step e ev s) = intervals s
     \<and> nextHandle (step e ev s) = nextHandle s"
proof -
  from step_upsert_present [OF assms(1), of e "clientX pe" "clientY pe"]
  obtain f where u: "commit s (upsertFinger e (pointerId pe) (clientX pe) (clientY pe) s)
      = s\<lparr>fingers := Map_set (pointerId pe) (f\<lparr>x_f := clientX pe, y_f := clientY pe\<rparr>)
            (fingers s),
          listenerFingers := Map_set (pointerId pe)
            (f\<lparr>x_f := clientX pe, y_f := clientY pe\<rparr>) (fingers s)\<rparr>"
    by blast
  have idle: "commit s s = s\<lparr>listenerFingers := fingers s\<rparr>"
    by (simp add: commit_def)
  have "step e ev s = commit s s \<or>
      step e ev s = commit s (upsertFinger e (pointerId pe) (clientX pe) (clientY pe) s)"
    using assms by (auto simp: step_def onPointerMove_def onPointerDown_def)
  then show ?thesis
    using u idle by (auto simp: Map_keys_set_present [OF assms(1)])
qed

theorem position_update_keeps_timer_witness:
  "Map_has (pointerId touch_A_moved) (fingers game_AB)
   \<and> fingers (step env_zero (PointerMove touch_A_moved) game_AB) \<noteq> fingers game_AB
   \<and> Map_keys (fingers (step env_zero (PointerMove touch_A_moved) game_AB)) = [1, 2]
   \<and> eliminationTimerRef (step env_zero (PointerMove touch_A_moved) game_AB) = Some 1
   \<and> intervals (step env_zero (PointerMove touch_A_moved) game_AB) = [1]
   \<and> nextHandle (step env_zero (PointerMove touch_A_moved) game_AB) = 2"
proof -
  have b: "Map_has (pointerId touch_A_moved) (fingers game_AB)"
    by (simp add: touch_A_moved_def game_AB_eq Map_has_def)
  have m: "fingers (step env_zero (PointerMove touch_A_moved) game_AB) \<noteq> fingers game_AB"
    by (simp add: step_def onPointerMove_def touch_A_moved_def game_AB_eq Map_has_def
        upsertFinger_def setFingers_def upsertFinger_updater_def Let_def Map_get_def
        finger_A_def)
  from b m position_update_keeps_timer [OF b, of "PointerMove touch_A_moved" env_zero]
  show ?thesis by (simp add: game_AB_eq Map_keys_def)
qed

subsection \<open>The timer invariant\<close>

lemma setFingers_timer:
  "intervals (setFingers u s) = intervals s"
  "eliminationTimerRef (setFingers u s) = eliminationTimerRef s"
  "nextHandle (setFingers u s) = nextHandle s"
  "winnerId (setFingers u s) = winnerId s"
  by (simp_all add: setFingers_def split: prod.splits)

lemma handle_pointer_timer:
  assumes "\<forall>h. ev \<noteq> IntervalTick h"
  shows "intervals (handle e ev s) = intervals s"
    and "eliminationTimerRef (handle e ev s) = eliminationTimerRef s"
    and "nextHandle (handle e ev s) = nextHandle s"
    and "winnerId (handle e ev s) = winnerId s"
  using assms
  by (cases ev; simp add: onPointerDown_def onPointerMove_def onPointerUp_def upsertFinger_def
      removeFinger_def setFingers_timer)+

lemma same_size_of_same_string:
  assumes "keys_toString (Map_keys (fingers s')) = keys_toString (Map_keys (fingers s))"
  shows "Map_size (fingers s') = Map_size (fingers s)"
  using keys_toString_length [OF assms] by (simp add: Map_keys_def Map_size_def)

lemma handle_invariant:
  assumes t: "timer_tracked s"
    and r: "timer_running s \<longleftrightarrow> 2 \<le> Map_size (fingers s)"
  shows "timer_tracked (handle e ev s)"
    and "keys_toString (Map_keys (fingers (handle e ev s))) = keys_toString (Map_keys (fingers s))
      \<Longrightarrow> timer_running (handle e ev s) \<longleftrightarrow> 2 \<le> Map_size (fingers (handle e ev s))"
proof -
  let ?s' = "handle e ev s"
  have same: "timer_tracked ?s' \<and> (timer_running ?s' \<longleftrightarrow> timer_running s)"
    if "intervals ?s' = intervals s" "eliminationTimerRef ?s' = eliminationTimerRef s"
      "nextHandle ?s' = nextHandle s"
    using that t by (auto simp: timer_tracked_def timer_running_def split: option.splits)
  have "timer_tracked ?s' \<and>
      (keys_toString (Map_keys (fingers ?s')) = keys_toString (Map_keys (fingers s))
        \<longrightarrow> (timer_running ?s' \<longleftrightarrow> 2 \<le> Map_size (fingers ?s')))"
  proof (cases "\<exists>h. ev = IntervalTick h")
    case False
    then have "\<forall>h. ev \<noteq> IntervalTick h" by simp
    from same [OF handle_pointer_timer(1-3) [OF this]] r show ?thesis
      by (auto dest: same_size_of_same_string)
  next
    case True
    then obtain h where ev: "ev = IntervalTick h" by blast
    consider "h \<notin> set (intervals s)"
      | "h \<in> set (intervals s)" "Map_size (fingers s) \<le> 1"
      | "h \<in> set (intervals s)" "2 \<le> Map_size (fingers s)"
      by arith
    then show ?thesis
    proof cases
      case 1
      then show ?thesis using t r by (simp add: ev)
    next
      case 2
      then have "?s' = clearEliminationTimer s" by (simp add: ev eliminationTick_small)
      with 2 clearEliminationTimer_tracked [OF t] show ?thesis
        by (simp add: timer_running_def)
    next
      case 3
      then have "?s' = eliminationTick e s" by (simp add: ev)
      with same eliminationTick_timer [OF 3(2), of e] r show ?thesis
        by (auto dest: same_size_of_same_string)
    qed
  qed
  then show "timer_tracked ?s'"
    and "keys_toString (Map_keys (fingers ?s')) = keys_toString (Map_keys (fingers s))
      \<Longrightarrow> timer_running ?s' \<longleftrightarrow> 2 \<le> Map_size (fingers ?s')"
    by simp_all
qed

lemma listenerFingers_update_timer [simp]:
  "timer_tracked (s\<lparr>listenerFingers := m\<rparr>) = timer_tracked s"
  "timer_running (s\<lparr>listenerFingers := m\<rparr>) = timer_running s"
  by (simp_all add: timer_tracked_def timer_running_def split: option.splits)

lemma step_invariant:
  assumes "timer_tracked s"
    and "timer_running s \<longleftrightarrow> 2 \<le> Map_size (fingers s)"
  shows "timer_tracked (step e ev s)
     \<and> (timer_running (step e ev s) \<longleftrightarrow> 2 \<le> Map_size (fingers (step e ev s)))"
proof (cases "keys_toString (Map_keys (fingers (handle e ev s)))
    = keys_toString (Map_keys (fingers s))")
  case True
  then have "step e ev s = (handle e ev s)\<lparr>listenerFingers := fingers (handle e ev s)\<rparr>"
    by (simp add: step_def commit_def Let_def)
  with handle_invariant [OF assms, of e ev] True show ?thesis by simp
next
  case False
  then have "step e ev s
      = (reconcile (handle e ev s))\<lparr>listenerFingers := fingers (handle e ev s)\<rparr>"
    by (simp add: step_def commit_def Let_def)
  with reconcile_tracked [OF handle_invariant(1) [OF assms, of e ev]] show ?thesis by simp
qed

lemma reachable_invariant:
  "reachable s \<Longrightarrow>
     timer_tracked s \<and> (timer_running s \<longleftrightarrow> 2 \<le> Map_size (fingers s))"
proof (induction rule: reachable.induct)
  case reachable_initial
  show ?case by (simp add: initial_def timer_tracked_def timer_running_def Map_size_def)
next
  case (reachable_step s e ev)
  then show ?case using step_invariant by blast
qed

text \<open>The invariant also survives the one order of events in which a listener is stale:
  a tick, then a move delivered before the render.\<close>

lemma pending_move_invariant:
  assumes t: "timer_tracked s"
    and r: "timer_running s \<longleftrightarrow> 2 \<le> Map_size (fingers s)"
  shows "timer_tracked (commit s (handle e' (PointerMove pe) (handle e (IntervalTick h) s)))
     \<and> (timer_running (commit s (handle e' (PointerMove pe) (handle e (IntervalTick h) s)))
          \<longleftrightarrow> 2 \<le> Map_size (fingers
                (commit s (handle e' (PointerMove pe) (handle e (IntervalTick h) s)))))"
proof -
  let ?t1 = "handle e (IntervalTick h) s"
  let ?t2 = "handle e' (PointerMove pe) ?t1"
  have tick: "intervals ?t1 = intervals s \<and> eliminationTimerRef ?t1 = eliminationTimerRef s
      \<and> nextHandle ?t1 = nextHandle s"
  proof (cases "h \<in> set (intervals s)")
    case False
    then show ?thesis by simp
  next
    case True
    then have "timer_running s" by (auto simp: timer_running_def)
    then have "2 \<le> Map_size (fingers s)" using r by simp
    then show ?thesis using True eliminationTick_timer [of s e] by simp
  qed
  have move: "intervals ?t2 = intervals ?t1" "eliminationTimerRef ?t2 = eliminationTimerRef ?t1"
    "nextHandle ?t2 = nextHandle ?t1"
    by (rule handle_pointer_timer; simp)+
  have tr: "timer_tracked ?t2" "timer_running ?t2 \<longleftrightarrow> timer_running s"
    using t tick move by (auto simp: timer_tracked_def timer_running_def split: option.splits)
  show ?thesis
  proof (cases "keys_toString (Map_keys (fingers ?t2)) = keys_toString (Map_keys (fingers s))")
    case True
    then have "commit s ?t2 = ?t2\<lparr>listenerFingers := fingers ?t2\<rparr>"
      by (simp add: commit_def Let_def)
    moreover have "Map_size (fingers ?t2) = Map_size (fingers s)"
      using True by (rule same_size_of_same_string)
    ultimately show ?thesis using tr r by simp
  next
    case False
    then have "commit s ?t2 = (reconcile ?t2)\<lparr>listenerFingers := fingers ?t2\<rparr>"
      by (simp add: commit_def Let_def)
    with reconcile_tracked [OF tr(1)] show ?thesis by simp
  qed
qed

text \<open>
  C2. In every state a run reaches (so after every mutation of the registry and the
  render that follows it) the timer is running exactly when the registry has at least
  two contacts. A tick that finds at most one contact, in a state whose ref tracks the
  timer, stops the timer and leaves the registry as it is.
\<close>

theorem timer_running_iff_two_contacts:
  "(reachable s \<longrightarrow> (timer_running s \<longleftrightarrow> 2 \<le> Map_size (fingers s)))
   \<and> (timer_tracked s \<and> Map_size (fingers s) \<le> 1 \<longrightarrow>
        \<not> timer_running (eliminationTick e s)
        \<and> eliminationTimerRef (eliminationTick e s) = None
        \<and> fingers (eliminationTick e s) = fingers s)"
  using reachable_invariant [of s] clearEliminationTimer_tracked [of s]
  by (auto simp: eliminationTick_small timer_running_def)

theorem timer_running_iff_two_contacts_witness:
  "reachable game_A \<and> \<not> timer_running game_A \<and> Map_size (fingers game_A) = 1
   \<and> reachable game_AB \<and> timer_running game_AB \<and> Map_size (fingers game_AB) = 2
   \<and> reachable game_AB_tick \<and> \<not> timer_running game_AB_tick
   \<and> Map_size (fingers game_AB_tick) = 1
   \<and> timer_tracked game_A_running \<and> Map_size (fingers game_A_running) \<le> 1
   \<and> timer_running game_A_running
   \<and> \<not> timer_running (eliminationTick env_zero game_A_running)
   \<and> fingers (eliminationTick env_zero game_A_running) = fingers game_A_running"
proof -
  note t = timer_running_iff_two_contacts
  have sizes: "Map_size (fingers game_A) = 1" "Map_size (fingers game_AB) = 2"
    "Map_size (fingers game_AB_tick) = 1" "Map_size (fingers game_A_running) \<le> 1"
    by (simp_all add: game_A_eq game_AB_eq game_AB_tick_eq game_A_running_def Map_size_def)
  have tr: "timer_tracked game_A_running" "timer_running game_A_running"
    by (simp_all add: game_A_running_def timer_tracked_def timer_running_def)
  have a: "\<not> timer_running game_A"
    using t [of game_A] reachable_samples(1) sizes by simp
  have b: "timer_running game_AB"
    using t [of game_AB] reachable_samples(2) sizes by simp
  have c: "\<not> timer_running game_AB_tick"
    using t [of game_AB_tick] reachable_samples(3) sizes by simp
  have d: "\<not> timer_running (eliminationTick env_zero game_A_running)
      \<and> fingers (eliminationTick env_zero game_A_running) = fingers game_A_running"
    using t [of game_A_running env_zero] tr sizes by simp
  from reachable_samples sizes tr a b c d show ?thesis by simp
qed

subsection \<open>The winner\<close>

lemma commit_winnerId:
  "winnerId (commit s s') = winnerId s' \<or> winnerId (commit s s') = None"
  by (simp add: commit_def reconcile_winnerId)

lemma commit_winnerId_nonempty:
  "fingers s' \<noteq> [] \<Longrightarrow> winnerId (commit s s') = winnerId s'"
  by (simp add: commit_def reconcile_winnerId Map_size_def)

lemma commit_winnerId_emptied:
  assumes "fingers s \<noteq> []" and "fingers s' = []"
  shows "winnerId (commit s s') = None"
proof -
  have "keys_toString (Map_keys (fingers s')) \<noteq> keys_toString (Map_keys (fingers s))"
    using assms keys_toString_empty_iff [of "Map_keys (fingers s)"]
    by (simp add: Map_keys_def)
  then show ?thesis using assms(2) by (simp add: commit_def reconcile_winnerId Map_size_def)
qed

lemma step_pointer_winnerId:
  assumes "\<forall>h. ev \<noteq> IntervalTick h"
  shows "winnerId (step e ev s) = winnerId s \<or> winnerId (step e ev s) = None"
  using commit_winnerId [of s "handle e ev s"] handle_pointer_timer(4) [OF assms, of e s]
  by (simp add: step_def)

lemma step_emptied_winnerId:
  assumes "fingers s \<noteq> []" and "fingers (step e ev s) = []"
  shows "winnerId (step e ev s) = None"
  using assms commit_winnerId_emptied [of s "handle e ev s"] by (simp add: step_def)

lemma Map_size_delete_le: "Map_size m \<le> Suc (Map_size (Map_delete k m))"
  by (induction m) (auto simp: Map_size_def)

lemma eliminationTick_size:
  assumes "2 \<le> Map_size (fingers s)"
  shows "Map_size (fingers s) \<le> Suc (Map_size (fingers (eliminationTick e s)))"
  unfolding eliminationTick_next [OF assms]
  using Map_size_delete_le by (auto split: option.splits)

lemma step_tick_winnerId:
  assumes "winnerId (step e (IntervalTick h) s) \<noteq> winnerId s"
  shows "h \<in> set (intervals s) \<and> Map_size (fingers s) = 2
     \<and> (\<exists>w f. fingers (step e (IntervalTick h) s) = [(w, f)]
          \<and> winnerId (step e (IntervalTick h) s) = Some w)"
proof -
  have h: "h \<in> set (intervals s)"
  proof (rule ccontr)
    assume "h \<notin> set (intervals s)"
    then have "winnerId (step e (IntervalTick h) s) = winnerId s"
      by (simp add: step_def commit_def)
    with assms show False by simp
  qed
  then have st: "step e (IntervalTick h) s = commit s (eliminationTick e s)"
    by (simp add: step_def)
  have big: "2 \<le> Map_size (fingers s)"
  proof (rule ccontr)
    assume "\<not> 2 \<le> Map_size (fingers s)"
    then have "eliminationTick e s = clearEliminationTimer s"
      by (simp add: eliminationTick_small)
    then have "winnerId (step e (IntervalTick h) s) = winnerId s"
      unfolding st by (simp add: commit_def)
    with assms show False by simp
  qed
  have nonempty: "fingers (eliminationTick e s) \<noteq> []"
    using eliminationTick_size [OF big, of e] big by (auto simp: Map_size_def)
  then have w: "winnerId (step e (IntervalTick h) s) = winnerId (eliminationTick e s)"
    unfolding st by (rule commit_winnerId_nonempty)
  with assms have "winnerId (eliminationTick e s) \<noteq> winnerId s" by simp
  then obtain k f where n: "fingers (eliminationTick e s) = [(k, f)]"
    and k: "winnerId (eliminationTick e s) = Some k"
    unfolding eliminationTick_winnerId [OF big]
    by (auto split: list.splits prod.splits)
  have "Map_size (fingers s) = 2"
    using eliminationTick_size [OF big, of e] big n by (simp add: Map_size_def)
  with h n k w st show ?thesis by simp
qed

lemma reachable_empty_no_winner:
  "reachable s \<Longrightarrow> fingers s = [] \<Longrightarrow> winnerId s = None"
proof (induction rule: reachable.induct)
  case reachable_initial
  show ?case by (simp add: initial_def)
next
  case (reachable_step s e ev)
  show ?case
  proof (cases "fingers s = []")
    case False
    then show ?thesis using reachable_step.prems by (rule step_emptied_winnerId)
  next
    case True
    then have old: "winnerId s = None" by (rule reachable_step.IH)
    show ?thesis
    proof (cases "\<exists>h. ev = IntervalTick h")
      case False
      then show ?thesis using step_pointer_winnerId [of ev e s] old by auto
    next
      case True
      then obtain h where ev: "ev = IntervalTick h" by blast
      have "winnerId (step e (IntervalTick h) s) = winnerId s"
      proof (rule ccontr)
        assume "winnerId (step e (IntervalTick h) s) \<noteq> winnerId s"
        from step_tick_winnerId [OF this] have "Map_size (fingers s) = 2" by simp
        with \<open>fingers s = []\<close> show False by (simp add: Map_size_def)
      qed
      with old show ?thesis by (simp add: ev)
    qed
  qed
qed

text \<open>
  C4. A pointer event (down, move, up, cancel) never sets the winner: after it the winner
  is the one before or none. The winner becomes a new id only by a tick of the running
  interval that takes the registry from two contacts to one, and then it is the id of
  the contact that remains; such a tick, with a draw in \<open>[0, 1)\<close>, does set it. A step
  that empties the registry clears the winner, and no reachable state with an empty
  registry has one.
\<close>

theorem winnerId_set_only_by_elimination:
  "((\<forall>h. ev \<noteq> IntervalTick h) \<longrightarrow>
       winnerId (step e ev s) = winnerId s \<or> winnerId (step e ev s) = None)
   \<and> (winnerId (step e ev s) = Some w \<and> winnerId s \<noteq> Some w \<longrightarrow>
       (\<exists>h. ev = IntervalTick h \<and> h \<in> set (intervals s))
       \<and> Map_size (fingers s) = 2
       \<and> Map_keys (fingers (step e ev s)) = [w])
   \<and> (h \<in> set (intervals s) \<and> Map_size (fingers s) = 2
        \<and> 0 \<le> Math_random e 0 \<and> Math_random e 0 < 1 \<longrightarrow>
       (\<exists>k. Map_keys (fingers (step e (IntervalTick h) s)) = [k]
          \<and> winnerId (step e (IntervalTick h) s) = Some k))
   \<and> (fingers s \<noteq> [] \<and> fingers (step e ev s) = [] \<longrightarrow> winnerId (step e ev s) = None)
   \<and> (reachable s \<and> fingers s = [] \<longrightarrow> winnerId s = None)"
proof -
  have p1: "(\<forall>h. ev \<noteq> IntervalTick h) \<longrightarrow>
       winnerId (step e ev s) = winnerId s \<or> winnerId (step e ev s) = None"
    using step_pointer_winnerId [of ev e s] by blast
  have p2: "winnerId (step e ev s) = Some w \<and> winnerId s \<noteq> Some w \<longrightarrow>
       (\<exists>h. ev = IntervalTick h \<and> h \<in> set (intervals s))
       \<and> Map_size (fingers s) = 2
       \<and> Map_keys (fingers (step e ev s)) = [w]"
  proof (intro impI, elim conjE)
    assume new: "winnerId (step e ev s) = Some w" "winnerId s \<noteq> Some w"
    have "\<exists>h. ev = IntervalTick h"
      using step_pointer_winnerId [of ev e s] new by auto
    then obtain h' where ev: "ev = IntervalTick h'" by blast
    from new have "winnerId (step e (IntervalTick h') s) \<noteq> winnerId s"
      by (simp add: ev)
    from step_tick_winnerId [OF this] new
    show "(\<exists>h. ev = IntervalTick h \<and> h \<in> set (intervals s))
       \<and> Map_size (fingers s) = 2 \<and> Map_keys (fingers (step e ev s)) = [w]"
      by (auto simp: ev Map_keys_def)
  qed
  have p3: "h \<in> set (intervals s) \<and> Map_size (fingers s) = 2
        \<and> 0 \<le> Math_random e 0 \<and> Math_random e 0 < 1 \<longrightarrow>
       (\<exists>k. Map_keys (fingers (step e (IntervalTick h) s)) = [k]
          \<and> winnerId (step e (IntervalTick h) s) = Some k)"
  proof (intro impI, elim conjE)
    assume h: "h \<in> set (intervals s)" and two: "Map_size (fingers s) = 2"
      and r: "0 \<le> Math_random e 0" "Math_random e 0 < 1"
    have big: "2 \<le> Map_size (fingers s)" using two by simp
    have len: "length (Map_keys (fingers s)) = 2"
      using two by (simp add: Map_size_def Map_keys_def)
    have pos: "0 < length (Map_keys (fingers s))" "length (Map_keys (fingers s)) < 2 ^ 53"
      by (simp_all add: len)
    have dbl: "round_double (Math_random e 0) = Math_random e 0"
      by (simp add: Math_random_def real_of_double_rounded)
    from draw_index [OF dbl r pos] obtain j where j: "j < length (Map_keys (fingers s))"
      and a: "array_at (Map_keys (fingers s))
          (Math_floor (round_double
             (Math_random e 0 * real (length (Map_keys (fingers s))))))
        = Some (Map_keys (fingers s) ! j)"
      by blast
    have "fingers (eliminationTick e s) = Map_delete (Map_keys (fingers s) ! j) (fingers s)"
      using a by (simp add: eliminationTick_next [OF big])
    then have "Suc (Map_size (fingers (eliminationTick e s))) = Map_size (fingers s)"
      using Map_size_delete [OF Map_has_nth [OF j]] by simp
    then have "Map_size (fingers (eliminationTick e s)) = 1" using two by simp
    then obtain k f where n: "fingers (eliminationTick e s) = [(k, f)]"
      by (rule Map_size_one)
    then have "winnerId (eliminationTick e s) = Some k"
      by (simp add: eliminationTick_winnerId [OF big])
    moreover have "winnerId (commit s (eliminationTick e s)) = winnerId (eliminationTick e s)"
      by (rule commit_winnerId_nonempty) (simp add: n)
    ultimately show "\<exists>k. Map_keys (fingers (step e (IntervalTick h) s)) = [k]
          \<and> winnerId (step e (IntervalTick h) s) = Some k"
      using h n by (simp add: step_def Map_keys_def)
  qed
  have p4: "fingers s \<noteq> [] \<and> fingers (step e ev s) = [] \<longrightarrow>
      winnerId (step e ev s) = None"
    using step_emptied_winnerId [of s e ev] by blast
  have p5: "reachable s \<and> fingers s = [] \<longrightarrow> winnerId s = None"
    using reachable_empty_no_winner [of s] by blast
  show ?thesis
    by (rule conjI [OF p1 conjI [OF p2 conjI [OF p3 conjI [OF p4 p5]]]])
qed

theorem winnerId_set_only_by_elimination_witness:
  "winnerId game_AB = None \<and> Map_size (fingers game_AB) = 2 \<and> 1 \<in> set (intervals game_AB)
   \<and> 0 \<le> Math_random env_zero 0 \<and> Math_random env_zero 0 < 1
   \<and> Map_keys (fingers game_AB_tick) = [2] \<and> winnerId game_AB_tick = Some 2
   \<and> Map_size (fingers game_AB_lifted) = 1 \<and> winnerId game_AB_lifted = None
   \<and> fingers game_AB_tick \<noteq> [] \<and> fingers game_over = [] \<and> reachable game_over
   \<and> winnerId game_over = None"
proof -
  note t = winnerId_set_only_by_elimination
  have ab: "winnerId game_AB = None" "Map_size (fingers game_AB) = 2"
    "1 \<in> set (intervals game_AB)"
    by (simp_all add: game_AB_eq Map_size_def)
  have r: "0 \<le> Math_random env_zero 0" "Math_random env_zero 0 < 1"
    by (simp_all add: Math_random_env_zero)
  have keys: "Map_keys (fingers game_AB_tick) = [2]" "fingers game_AB_tick \<noteq> []"
    by (simp_all add: game_AB_tick_eq Map_keys_def)
  have lifted: "fingers game_AB_lifted = [(2, finger_B)]"
    by (simp add: game_AB_lifted_def fingers_step_PointerUp game_AB_eq touch_A_def
        removeFinger_updater_def Map_has_def Let_def)
  have over: "fingers game_over = []"
    by (simp add: game_over_def fingers_step_PointerUp game_AB_tick_eq touch_B_def
        removeFinger_updater_def Map_has_def Let_def)
  have reach: "reachable game_over"
    unfolding game_over_def by (intro reachable_step reachable_samples)
  have w: "winnerId game_AB_tick = Some 2"
    using t [of "IntervalTick 1" env_zero game_AB 2 1] ab r keys
    by (auto simp: game_AB_tick_def)
  have l: "winnerId game_AB_lifted = None"
    using t [of "PointerUp touch_A" env_zero game_AB 2 1] ab
    by (auto simp: game_AB_lifted_def)
  have o: "winnerId game_over = None"
    using t [of "PointerUp touch_B" env_zero game_AB_tick 2 1] keys over
    by (simp add: game_over_def)
  have o': "winnerId game_over = None"
    using t [of "PointerUp touch_B" env_zero game_over 2 1] reach over by simp
  from ab r keys lifted over reach w l o show ?thesis by (simp add: Map_size_def)
qed

end
